theory Spec2Isabelle
  imports Complex_Main "HOL-Library.Word" "HOL-Library.Log_Nat" "HOL-Library.Code_Target_Nat"
begin

unbundle bit_operations_syntax

section \<open>Values (sink.h)\<close>

text \<open>
  A value is one 64-bit cell (\<open>sink_val\<close>, a union of \<open>uint64_t u\<close> and \<open>double f\<close>).
  Nil, strings and lists are stored inside the signalling NaN space; everything else is a
  number. The model keeps the bit pattern.
\<close>

type_synonym sink_val = "64 word"

datatype sink_type = SINK_TYPE_NIL | SINK_TYPE_NUM | SINK_TYPE_STR | SINK_TYPE_LIST

definition SINK_NAN :: sink_val where "SINK_NAN = 0x7FF8000000000000"
definition SINK_NIL :: sink_val where "SINK_NIL = 0x7FF0000100000000"
definition SINK_TAG_STR :: "64 word" where "SINK_TAG_STR = 0x7FF0000200000000"
definition SINK_TAG_LIST :: "64 word" where "SINK_TAG_LIST = 0x7FF0000300000000"
definition SINK_TAG_MASK :: "64 word" where "SINK_TAG_MASK = 0xFFFFFFFF80000000"
definition SINK_INDEX_MASK :: "64 word" where "SINK_INDEX_MASK = 0x000000007FFFFFFF"
definition SINK_NAN_MASK :: "64 word" where "SINK_NAN_MASK = 0x7FF8000000000000"

definition sink_isnil :: "sink_val \<Rightarrow> bool" where
  "sink_isnil v = (v = SINK_NIL)"

definition sink_isstr :: "sink_val \<Rightarrow> bool" where
  "sink_isstr v = (v AND SINK_TAG_MASK = SINK_TAG_STR)"

definition sink_islist :: "sink_val \<Rightarrow> bool" where
  "sink_islist v = (v AND SINK_TAG_MASK = SINK_TAG_LIST)"

definition sink_isnum :: "sink_val \<Rightarrow> bool" where
  "sink_isnum v = (\<not> sink_isnil v \<and> \<not> sink_isstr v \<and> \<not> sink_islist v)"

definition sink_typeof :: "sink_val \<Rightarrow> sink_type" where
  "sink_typeof v =
     (if sink_isnil v then SINK_TYPE_NIL
      else if sink_isstr v then SINK_TYPE_STR
      else if sink_islist v then SINK_TYPE_LIST
      else SINK_TYPE_NUM)"

definition sink_num_isnan :: "sink_val \<Rightarrow> bool" where
  "sink_num_isnan v = (v AND SINK_NAN_MASK = SINK_NAN_MASK)"

definition var_index :: "sink_val \<Rightarrow> nat" where
  "var_index v = unat (v AND SINK_INDEX_MASK)"

definition sink_list_val :: "nat \<Rightarrow> sink_val" where
  "sink_list_val i = SINK_TAG_LIST OR (word_of_nat i AND SINK_INDEX_MASK)"

definition sink_str_val :: "nat \<Rightarrow> sink_val" where
  "sink_str_val i = SINK_TAG_STR OR (word_of_nat i AND SINK_INDEX_MASK)"

subsection \<open>The double stored in a cell\<close>

text \<open>
  The C code reads the same cell as \<open>double\<close> through the union. What is used of
  IEEE-754 binary64 is written out on the bit pattern: the three fields, the comparison
  \<open>a.f < b.f\<close>, and the conversion \<open>(int)v.f\<close>, which truncates towards zero and is
  undefined (\<open>None\<close>) when the truncated value does not fit a 32-bit \<open>int\<close>.
\<close>

definition dbl_sign :: "64 word \<Rightarrow> bool" where
  "dbl_sign u = bit u 63"

definition dbl_exp :: "64 word \<Rightarrow> nat" where
  "dbl_exp u = unat (drop_bit 52 u AND 0x7FF)"

definition dbl_man :: "64 word \<Rightarrow> nat" where
  "dbl_man u = unat (u AND 0xFFFFFFFFFFFFF)"

definition dbl_isnan :: "64 word \<Rightarrow> bool" where
  "dbl_isnan u = (dbl_exp u = 0x7FF \<and> dbl_man u \<noteq> 0)"

definition dbl_isinf :: "64 word \<Rightarrow> bool" where
  "dbl_isinf u = (dbl_exp u = 0x7FF \<and> dbl_man u = 0)"

definition dbl_mag :: "64 word \<Rightarrow> nat" where
  "dbl_mag u = unat (u AND 0x7FFFFFFFFFFFFFFF)"

definition dbl_lt :: "64 word \<Rightarrow> 64 word \<Rightarrow> bool" where
  "dbl_lt a b =
     (if dbl_isnan a \<or> dbl_isnan b then False
      else if dbl_mag a = 0 \<and> dbl_mag b = 0 then False
      else if dbl_sign a \<and> \<not> dbl_sign b then True
      else if \<not> dbl_sign a \<and> dbl_sign b then False
      else if dbl_sign a then dbl_mag b < dbl_mag a
      else dbl_mag a < dbl_mag b)"

definition double_to_int :: "64 word \<Rightarrow> int option" where
  "double_to_int u =
     (if dbl_exp u = 0x7FF then None
      else
        let m = (if dbl_exp u = 0 then dbl_man u else dbl_man u + 2 ^ 52);
            mag = (if 1075 \<le> dbl_exp u then m * 2 ^ (dbl_exp u - 1075)
                   else m div 2 ^ (1075 - dbl_exp u));
            v = (if dbl_sign u then - int mag else int mag)
        in if - 2147483648 \<le> v \<and> v \<le> 2147483647 then Some v else None)"

section \<open>Strings, lists and the context (sink.c)\<close>

type_synonym str_st = string

text \<open>
  \<open>list_st\<close>: \<open>vals\<close> holds the \<open>size\<close> live elements (so \<open>size\<close> is the length
  of \<open>vals\<close>) and \<open>count\<close> is the capacity of the buffer.
\<close>

record list_st =
  vals :: "sink_val list"
  count :: int

datatype sink_gc_level = SINK_GC_NONE | SINK_GC_DEFAULT | SINK_GC_LOWMEM

datatype sink_run =
  SINK_RUN_PASS | SINK_RUN_FAIL | SINK_RUN_ASYNC | SINK_RUN_TIMEOUT | SINK_RUN_REPLMORE

record context_st =
  str_tbl :: "str_st list"
  list_tbl :: "list_st list"
  pc :: int
  timeout :: int
  timeout_left :: int
  gc_level :: sink_gc_level
  gc_left :: int
  passed :: bool
  failed :: bool
  async :: bool
  err :: "string option"

text \<open>
  Outcomes that are not a normal result: a runtime abort with its message
  (\<open>opi_abortcstr\<close>), behaviour the C standard leaves undefined (an out-of-range
  conversion or index), the exit of the process for lack of memory, and a read of the
  opcode buffer at an index outside it.
\<close>

datatype fault = Abort string | Undefined | Out_of_memory | Read_outside int

definition sink_list_grow :: int where
  "sink_list_grow = 200"

subsection \<open>opi_list_pushnils and OP_SETAT\<close>

function pushnils_loop :: "sink_val list \<Rightarrow> int \<Rightarrow> sink_val list" where
  "pushnils_loop vs totalsize =
     (if int (length vs) < totalsize then pushnils_loop (vs @ [SINK_NIL]) totalsize else vs)"
  by pat_completeness auto
termination
  by (relation "measure (\<lambda>(vs, t). nat (t - int (length vs)))") auto

declare pushnils_loop.simps [simp del]

text \<open>
  Arithmetic on the machine types. An \<open>int\<close> sum that leaves the 32-bit range is
  undefined in ISO C; the model takes the two's-complement result that the compiled code
  computes (\<open>int32\<close>). \<open>size_t\<close> is the conversion to the unsigned 64-bit type of a
  byte count.
\<close>

definition int32 :: "int \<Rightarrow> int" where
  "int32 v = (v + 2147483648) mod 4294967296 - 2147483648"

definition size_t :: "int \<Rightarrow> nat" where
  "size_t v = nat (v mod 18446744073709551616)"

text \<open>
  \<open>mem_realloc\<close> (\<open>mem_prod_realloc\<close>) prints "Out of memory!" and exits when
  \<open>realloc\<close> returns \<open>NULL\<close>. \<open>realloc\<close> refuses a request above \<open>PTRDIFF_MAX\<close>
  bytes, which no address space holds; for a smaller request the model takes the memory
  to be there.
\<close>

definition PTRDIFF_MAX :: nat where
  "PTRDIFF_MAX = 9223372036854775807"

definition realloc_null :: "nat \<Rightarrow> bool" where
  "realloc_null s = (PTRDIFF_MAX < s)"

definition opi_list_pushnils :: "list_st \<Rightarrow> int \<Rightarrow> fault + list_st" where
  "opi_list_pushnils ls totalsize =
     (if int (length (vals ls)) \<ge> totalsize then Inr ls
      else if totalsize > count ls then
        (let c = int32 (totalsize + sink_list_grow)
         in if realloc_null (size_t (8 * c)) then Inl Out_of_memory
            else Inr (ls\<lparr>vals := pushnils_loop (vals ls) totalsize, count := c\<rparr>))
      else Inr (ls\<lparr>vals := pushnils_loop (vals ls) totalsize\<rparr>))"

text \<open>
  \<open>case OP_SETAT\<close> of \<open>context_run_w\<close>. \<open>X\<close>, \<open>Y\<close> and \<open>V\<close> are the contents of the
  three operand registers (the third one is read after the list has been extended, which
  does not touch any register). The index is \<open>(int)Y.f\<close>. \<open>A += ls2->size\<close> adds a
  size to a negative \<open>int\<close> and cannot overflow; \<open>A + 1\<close> is an \<open>int\<close> sum.
\<close>

definition op_setat :: "context_st \<Rightarrow> sink_val \<Rightarrow> sink_val \<Rightarrow> sink_val \<Rightarrow> fault + context_st" where
  "op_setat ctx X Y V =
     (if \<not> sink_islist X then Inl (Abort ''Expecting list when setting index'')
      else if \<not> sink_isnum Y then Inl (Abort ''Expecting index to be number'')
      else if \<not> var_index X < length (list_tbl ctx) then Inl Undefined
      else
        case double_to_int Y of
          None \<Rightarrow> Inl Undefined
        | Some A0 \<Rightarrow>
            let ls2 = list_tbl ctx ! var_index X;
                A = (if A0 < 0 then A0 + int (length (vals ls2)) else A0)
            in case opi_list_pushnils ls2 (int32 (A + 1)) of
                 Inl f \<Rightarrow> Inl f
               | Inr ls3 \<Rightarrow>
                   let ls4 = (if A \<ge> 0 \<and> A < int (length (vals ls3))
                              then ls3\<lparr>vals := (vals ls3)[nat A := V]\<rparr> else ls3)
                   in Inr (ctx\<lparr>list_tbl := (list_tbl ctx)[var_index X := ls4]\<rparr>))"

section \<open>Object pools: the allocation bitmap (sink.c, bmp_alloc and bmp_reserve)\<close>

text \<open>
  \<open>ffsll\<close> of \<open>strings.h\<close>: the position, counted from 1, of the least significant
  set bit, and 0 for the word 0.
\<close>

definition ffsll :: "64 word \<Rightarrow> int" where
  "ffsll x = (case find (bit x) [0..<64] of None \<Rightarrow> 0 | Some i \<Rightarrow> int i + 1)"

text \<open>
  \<open>bmp_alloc\<close>. The C loop advances the pointer \<open>bmp\<close> and counts the words it has
  skipped in \<open>loop\<close>; here \<open>loop\<close> is the index of the word under the pointer. A read
  past the end of the bitmap is undefined.
\<close>

function bmp_alloc :: "64 word list \<Rightarrow> nat \<Rightarrow> int \<Rightarrow> fault + (int \<times> 64 word list)" where
  "bmp_alloc bmp loop cnt =
     (if cnt > 0 then
        if \<not> loop < length bmp then Inl Undefined
        else if bmp ! loop = 0xFFFFFFFFFFFFFFFF then bmp_alloc bmp (loop + 1) (cnt - 64)
        else
          let pos = ffsll (NOT (bmp ! loop)) - 1
          in Inr (int loop * 64 + pos, bmp[loop := bmp ! loop OR push_bit (nat pos) 1])
      else Inr (- 1, bmp))"
  by pat_completeness auto
termination
  by (relation "measure (\<lambda>(bmp, loop, cnt). nat cnt)") auto

declare bmp_alloc.simps [simp del]

text \<open>
  A pool is the four things \<open>bmp_reserve\<close> is handed by reference: the object table,
  its capacity, the allocation bitmap and the reachability bitmap.
\<close>

record 'a pool =
  tbl :: "'a list"
  psize :: int
  aloc :: "64 word list"
  ref :: "64 word list"

text \<open>
  \<open>mem_realloc\<close> to \<open>n\<close> elements keeps the old contents; the added elements are
  uninitialised memory, given here as \<open>junk\<close>. \<open>memset0 ws off n\<close> is
  \<open>memset(&ws[off], 0, n)\<close> on little-endian 64-bit words, undefined when it
  runs past the buffer.
\<close>

definition realloc :: "'a list \<Rightarrow> int \<Rightarrow> 'a \<Rightarrow> 'a list" where
  "realloc xs n junk = take (nat n) xs @ replicate (nat n - length xs) junk"

definition memset0 :: "64 word list \<Rightarrow> nat \<Rightarrow> nat \<Rightarrow> 64 word list option" where
  "memset0 ws off n =
     (if 8 * off + n > 8 * length ws then None
      else
        let k = n div 8; r = n mod 8;
            ws1 = take off ws @ replicate k 0 @ drop (off + k) ws
        in Some (if r = 0 then ws1 else ws1[off + k := ws1 ! (off + k) AND NOT (mask (8 * r))]))"

definition bmp_reserve :: "'a \<Rightarrow> 64 word \<Rightarrow> 'a pool \<Rightarrow> fault + (int \<times> 'a pool)" where
  "bmp_reserve junk junkw p =
     (case bmp_alloc (aloc p) 0 (psize p) of
        Inl f \<Rightarrow> Inl f
      | Inr (index, aloc1) \<Rightarrow>
          if index \<ge> 0 then Inr (index, p\<lparr>aloc := aloc1\<rparr>)
          else if psize p \<ge> 0x3FFFFFFF then Inl Out_of_memory
          else
            let new_count = psize p * 2;
                tbl2 = realloc (tbl p) new_count junk
            in case memset0 (realloc aloc1 (new_count div 64) junkw)
                      (nat (psize p div 64)) (8 * nat (psize p div 64)) of
                 None \<Rightarrow> Inl Undefined
               | Some aloc2 \<Rightarrow>
                  (case memset0 (realloc (ref p) (new_count div 64) junkw)
                          (nat (psize p div 64)) (nat (8 * psize p div 64)) of
                     None \<Rightarrow> Inl Undefined
                   | Some ref2 \<Rightarrow>
                       if \<not> nat (new_count div 128) < length aloc2 then Inl Undefined
                       else
                         Inr (new_count div 2,
                              \<lparr>tbl = tbl2, psize = new_count,
                               aloc = aloc2[nat (new_count div 128) := aloc2 ! nat (new_count div 128) OR 1],
                               ref = ref2\<rparr>)))"

text \<open>Bit \<open>i\<close> of a bitmap: slot \<open>i\<close> is in use.\<close>

definition bmp_bit :: "64 word list \<Rightarrow> nat \<Rightarrow> bool" where
  "bmp_bit bmp i = bit (bmp ! (i div 64)) (i mod 64)"

section \<open>Expressions and the parser's infix step (sink.c)\<close>

datatype ks_enum =
  KS_INVALID | KS_PLUS | KS_UNPLUS | KS_MINUS | KS_UNMINUS | KS_PERCENT | KS_STAR | KS_SLASH
| KS_CARET | KS_AMP | KS_LT | KS_GT | KS_BANG | KS_EQU | KS_TILDE | KS_COLON | KS_COMMA
| KS_PERIOD | KS_PIPE | KS_LPAREN | KS_LBRACKET | KS_LBRACE | KS_RPAREN | KS_RBRACKET
| KS_RBRACE | KS_PLUSEQU | KS_MINUSEQU | KS_PERCENTEQU | KS_STAREQU | KS_SLASHEQU
| KS_CARETEQU | KS_LTEQU | KS_GTEQU | KS_BANGEQU | KS_EQU2 | KS_TILDEEQU | KS_AMP2 | KS_PIPE2
| KS_PERIOD3 | KS_PIPE2EQU | KS_AMP2EQU | KS_BREAK | KS_CONTINUE | KS_DECLARE | KS_DEF | KS_DO
| KS_ELSE | KS_ELSEIF | KS_END | KS_ENUM | KS_FOR | KS_GOTO | KS_IF | KS_INCLUDE
| KS_NAMESPACE | KS_NIL | KS_RETURN | KS_USING | KS_VAR | KS_WHILE

record filepos_st =
  fullfile :: int
  basefile :: int
  line :: int
  chr :: int

text \<open>
  \<open>expr_st\<close>: the tag \<open>type\<close>, the position \<open>flp\<close> and the union \<open>u\<close>, one
  constructor per tag. A pointer that may be \<open>NULL\<close> (the body of a list literal, the
  bounds of a slice) is an option. Strings are byte strings. The number of
  \<open>EXPR_NUM\<close> is the bit pattern of the double.
\<close>

datatype expr =
  EXPR_NIL filepos_st
| EXPR_NUM filepos_st "64 word"
| EXPR_STR filepos_st string
| EXPR_LIST filepos_st "expr option"
| EXPR_NAMES filepos_st "string list"
| EXPR_PAREN filepos_st expr
| EXPR_GROUP filepos_st "expr list"
| EXPR_CAT filepos_st "expr list"
| EXPR_PREFIX filepos_st ks_enum expr
| EXPR_INFIX filepos_st ks_enum expr expr
| EXPR_CALL filepos_st expr expr
| EXPR_INDEX filepos_st expr expr
| EXPR_SLICE filepos_st expr "expr option" "expr option"

fun expr_flp :: "expr \<Rightarrow> filepos_st" where
  "expr_flp (EXPR_NIL f) = f"
| "expr_flp (EXPR_NUM f _) = f"
| "expr_flp (EXPR_STR f _) = f"
| "expr_flp (EXPR_LIST f _) = f"
| "expr_flp (EXPR_NAMES f _) = f"
| "expr_flp (EXPR_PAREN f _) = f"
| "expr_flp (EXPR_GROUP f _) = f"
| "expr_flp (EXPR_CAT f _) = f"
| "expr_flp (EXPR_PREFIX f _ _) = f"
| "expr_flp (EXPR_INFIX f _ _ _) = f"
| "expr_flp (EXPR_CALL f _ _) = f"
| "expr_flp (EXPR_INDEX f _ _) = f"
| "expr_flp (EXPR_SLICE f _ _ _) = f"

fun expr_paren :: "filepos_st \<Rightarrow> expr \<Rightarrow> expr" where
  "expr_paren flp (EXPR_NUM f n) = EXPR_NUM f n"
| "expr_paren flp ex = EXPR_PAREN flp ex"

text \<open>The elements a \<open>list_ptr_append\<close> or \<open>list_ptr_push\<close> adds for one operand.\<close>

fun group_items :: "expr \<Rightarrow> expr list" where
  "group_items (EXPR_GROUP f g) = g"
| "group_items ex = [ex]"

definition expr_group :: "filepos_st \<Rightarrow> expr \<Rightarrow> expr \<Rightarrow> expr" where
  "expr_group flp left right = EXPR_GROUP flp (group_items left @ group_items right)"

fun cat_items :: "expr \<Rightarrow> expr list" where
  "cat_items (EXPR_CAT f c) = c"
| "cat_items ex = [ex]"

fun unparen :: "expr \<Rightarrow> expr" where
  "unparen (EXPR_PAREN f ex) = unparen ex"
| "unparen ex = ex"

fun expr_cat_merge :: "filepos_st \<Rightarrow> expr \<Rightarrow> expr \<Rightarrow> expr" where
  "expr_cat_merge flp (EXPR_STR fl a) (EXPR_STR fr b) = EXPR_STR fl (a @ b)"
| "expr_cat_merge flp (EXPR_LIST fl l) (EXPR_LIST fr r) =
     (case r of
        None \<Rightarrow> EXPR_LIST fl l
      | Some rx \<Rightarrow>
          (case l of
             None \<Rightarrow> EXPR_LIST fl (Some rx)
           | Some lx \<Rightarrow> EXPR_LIST fl (Some (expr_group flp lx rx))))"
| "expr_cat_merge flp left right = EXPR_CAT flp (cat_items left @ cat_items right)"

definition expr_cat :: "filepos_st \<Rightarrow> expr \<Rightarrow> expr \<Rightarrow> expr" where
  "expr_cat flp left right = expr_cat_merge flp (unparen left) (unparen right)"

text \<open>
  \<open>expr_infix\<close>. Two number literals under an arithmetic operator are folded at parse
  time with the C double operation of that operator, which is the parameter \<open>arith\<close>
  (\<open>+\<close>, \<open>-\<close>, \<open>fmod\<close>, \<open>*\<close>, \<open>/\<close>, \<open>pow\<close>).
\<close>

definition folds :: "ks_enum \<Rightarrow> bool" where
  "folds k = (k = KS_PLUS \<or> k = KS_MINUS \<or> k = KS_PERCENT \<or> k = KS_STAR \<or> k = KS_SLASH \<or> k = KS_CARET)"

fun expr_infix :: "(ks_enum \<Rightarrow> 64 word \<Rightarrow> 64 word \<Rightarrow> 64 word) \<Rightarrow> filepos_st \<Rightarrow> ks_enum \<Rightarrow> expr \<Rightarrow> expr \<Rightarrow> expr" where
  "expr_infix arith flp k (EXPR_NUM fl a) (EXPR_NUM fr b) =
     (if folds k then EXPR_NUM fl (arith k a b)
      else if k = KS_COMMA then expr_group flp (EXPR_NUM fl a) (EXPR_NUM fr b)
      else if k = KS_TILDE then expr_cat flp (EXPR_NUM fl a) (EXPR_NUM fr b)
      else EXPR_INFIX flp k (EXPR_NUM fl a) (EXPR_NUM fr b))"
| "expr_infix arith flp k left right =
     (if k = KS_COMMA then expr_group flp left right
      else if k = KS_TILDE then expr_cat flp left right
      else EXPR_INFIX flp k left right)"

definition expr_call :: "filepos_st \<Rightarrow> expr \<Rightarrow> expr \<Rightarrow> expr" where
  "expr_call flp cmd params = EXPR_CALL flp cmd params"

text \<open>\<open>parser_infix\<close>: \<open>pri_ok ex\<close> is \<open>Inr ex\<close> and \<open>pri_error msg\<close> is \<open>Inl msg\<close>.\<close>

fun parser_infix :: "(ks_enum \<Rightarrow> 64 word \<Rightarrow> 64 word \<Rightarrow> 64 word) \<Rightarrow> filepos_st \<Rightarrow> ks_enum \<Rightarrow> expr \<Rightarrow> expr \<Rightarrow> string + expr" where
  "parser_infix arith flp k left right =
     (if k = KS_PIPE then
        (case right of
           EXPR_CALL rf cmd params \<Rightarrow>
             Inr (EXPR_CALL rf cmd (expr_infix arith flp KS_COMMA (expr_paren (expr_flp left) left) params))
         | EXPR_NAMES rf names \<Rightarrow>
             Inr (expr_call rf right (expr_paren (expr_flp left) left))
         | _ \<Rightarrow> Inl ''Invalid pipe'')
      else Inr (expr_infix arith flp k left right))"

section \<open>Number literals (sink.c, numpart_info and numpart_calc)\<close>

subsection \<open>Arithmetic of the type double\<close>

text \<open>
  \<open>numpart_calc\<close> computes with C doubles: IEEE-754 binary64 with the default rounding,
  to nearest with ties to even, every operation rounded on its own (no extended precision
  and no fused multiply-add). The operations are written out on the bit patterns. A
  finite double with magnitude bits \<open>m\<close> (the 63 bits below the sign) has exponent
  field \<open>m div 2^52\<close> and fraction field \<open>m mod 2^52\<close>; \<open>mag_val\<close> is its absolute value.
\<close>

definition dbl_finite :: "64 word \<Rightarrow> bool" where
  "dbl_finite u = (dbl_exp u < 0x7FF)"

definition mag_val :: "nat \<Rightarrow> real" where
  "mag_val m =
     (if m div 2 ^ 52 = 0 then real m * 2 powi (- 1074)
      else real (2 ^ 52 + m mod 2 ^ 52) * 2 powi (int (m div 2 ^ 52) - 1075))"

definition dbl_val :: "64 word \<Rightarrow> real" where
  "dbl_val u = (if dbl_sign u then - mag_val (dbl_mag u) else mag_val (dbl_mag u))"

definition dbl_make :: "bool \<Rightarrow> nat \<Rightarrow> 64 word" where
  "dbl_make s m = (if s then 0x8000000000000000 else 0) + word_of_nat m"

definition DBL_INF :: nat where
  "DBL_INF = 0x7FF0000000000000"

text \<open>
  Which NaN an invalid operation yields depends on the processor; the model writes the
  quiet NaN with an empty payload.
\<close>

definition DBL_QNAN :: "64 word" where
  "DBL_QNAN = 0x7FF8000000000000"

text \<open>
  Rounding a non-negative real to the magnitude bits of the nearest double. \<open>ilog2 x\<close> is
  the exponent \<open>e\<close> with \<open>2^e \<le> x < 2^(e+1)\<close>. The quantum is \<open>2^(e - 52)\<close>, and
  \<open>2^(- 1074)\<close> below the normal range; the multiple \<open>n\<close> of the quantum is chosen by
  \<open>round_half_even\<close>. Adding \<open>n\<close> to the exponent field less one covers the subnormal
  numbers, the carry into the next binade and the overflow to infinity at once.
\<close>

definition round_half_even :: "real \<Rightarrow> int" where
  "round_half_even x =
     (let f = \<lfloor>x\<rfloor>; r = x - of_int f
      in if r < 1 / 2 then f else if 1 / 2 < r then f + 1 else if even f then f else f + 1)"

definition ilog2 :: "real \<Rightarrow> int" where
  "ilog2 x = (if 1 \<le> x then bitlen \<lfloor>x\<rfloor> - 1 else - bitlen (\<lceil>1 / x\<rceil> - 1))"

definition round_mag :: "real \<Rightarrow> nat" where
  "round_mag x =
     (if x \<le> 0 then 0
      else
        let e = ilog2 x
        in if 1023 < e then DBL_INF
           else
             let ee = max e (- 1022);
                 n = round_half_even (x / 2 powi (ee - 52))
             in nat ((ee + 1022) * 2 ^ 52 + n))"

text \<open>The C operators \<open>*\<close>, \<open>+\<close> and \<open>/\<close> on doubles, and the conversion of an \<open>int\<close>.\<close>

definition dbl_mul :: "64 word \<Rightarrow> 64 word \<Rightarrow> 64 word" where
  "dbl_mul a b =
     (if dbl_isnan a \<or> dbl_isnan b then DBL_QNAN
      else if (dbl_isinf a \<and> dbl_mag b = 0) \<or> (dbl_mag a = 0 \<and> dbl_isinf b) then DBL_QNAN
      else if dbl_isinf a \<or> dbl_isinf b then dbl_make (dbl_sign a \<noteq> dbl_sign b) DBL_INF
      else dbl_make (dbl_sign a \<noteq> dbl_sign b)
             (round_mag (mag_val (dbl_mag a) * mag_val (dbl_mag b))))"

definition dbl_div :: "64 word \<Rightarrow> 64 word \<Rightarrow> 64 word" where
  "dbl_div a b =
     (if dbl_isnan a \<or> dbl_isnan b then DBL_QNAN
      else if (dbl_isinf a \<and> dbl_isinf b) \<or> (dbl_mag a = 0 \<and> dbl_mag b = 0) then DBL_QNAN
      else if dbl_isinf a \<or> dbl_mag b = 0 then dbl_make (dbl_sign a \<noteq> dbl_sign b) DBL_INF
      else if dbl_isinf b then dbl_make (dbl_sign a \<noteq> dbl_sign b) 0
      else dbl_make (dbl_sign a \<noteq> dbl_sign b)
             (round_mag (mag_val (dbl_mag a) / mag_val (dbl_mag b))))"

definition dbl_add :: "64 word \<Rightarrow> 64 word \<Rightarrow> 64 word" where
  "dbl_add a b =
     (if dbl_isnan a \<or> dbl_isnan b then DBL_QNAN
      else if dbl_isinf a \<and> dbl_isinf b then (if dbl_sign a = dbl_sign b then a else DBL_QNAN)
      else if dbl_isinf a then a
      else if dbl_isinf b then b
      else
        let r = dbl_val a + dbl_val b
        in if r = 0 then dbl_make (dbl_sign a \<and> dbl_sign b) 0
           else dbl_make (r < 0) (round_mag \<bar>r\<bar>))"

definition dbl_of_int :: "int \<Rightarrow> 64 word" where
  "dbl_of_int i = dbl_make (i < 0) (round_mag \<bar>real_of_int i\<bar>)"

text \<open>
  \<open>pow\<close> of the C library, for the calls \<open>numpart_calc\<close> makes: a finite positive base
  and an exponent that is an \<open>int\<close> converted to double (the conversion is exact), given
  here as the \<open>int\<close>. This \<open>pow\<close> returns the power rounded to nearest. A library need
  not round every power correctly, so \<open>numpart_calc\<close> takes the library's function as
  the parameter \<open>pw\<close>.
\<close>

definition pow :: "64 word \<Rightarrow> int \<Rightarrow> 64 word" where
  "pow b y = dbl_make False (round_mag (dbl_val b powi y))"

subsection \<open>numpart_info and numpart_calc\<close>

text \<open>
  \<open>numpart_info\<close> as the lexer fills it; \<open>val\<close> and \<open>frac\<close> are doubles. The product
  \<open>info.esign * info.eval\<close> of a sign and a non-negative \<open>int\<close> does not overflow. The
  constants are the doubles 10.0, 2.0 and 1.0.
\<close>

record numpart_info =
  np_sign :: int
  np_val :: "64 word"
  np_base :: int
  np_frac :: "64 word"
  np_flen :: int
  np_esign :: int
  np_eval :: int

definition numpart_new :: numpart_info where
  "numpart_new = \<lparr>np_sign = 1, np_val = 0, np_base = 10, np_frac = 0, np_flen = 0,
                   np_esign = 1, np_eval = 0\<rparr>"

definition numpart_calc :: "(64 word \<Rightarrow> int \<Rightarrow> 64 word) \<Rightarrow> numpart_info \<Rightarrow> 64 word" where
  "numpart_calc pw info =
     (let val0 = np_val info;
          e = (if np_eval info > 0
               then pw (if np_base info = 10 then 0x4024000000000000 else 0x4000000000000000)
                      (np_esign info * np_eval info)
               else 0x3FF0000000000000);
          val1 = (if np_eval info > 0 then dbl_mul val0 e else val0);
          val2 = (if np_flen info > 0
                  then (let d = pw (dbl_of_int (np_base info)) (np_flen info)
                        in dbl_div (dbl_add (dbl_mul val1 d) (dbl_mul (np_frac info) e)) d)
                  else val1)
      in dbl_mul (dbl_of_int (np_sign info)) val2)"

subsection \<open>Ranges and accumulated rounding\<close>

text \<open>
  \<open>dbl_pos\<close>: a finite double with a clear sign bit. \<open>pow_ok\<close>: the library's \<open>pow\<close>
  returns, for this call, a finite positive double within one unit in the last place of
  the power. \<open>in_range\<close>: a real quantity is zero or lies inside the normal range of
  binary64 with a factor 2 to spare at both ends. \<open>rel_within k t y\<close>: \<open>y\<close> is the
  non-negative quantity \<open>t\<close> after at most \<open>k\<close> roundings, each with a relative error of
  at most \<open>2^(- 53)\<close>.
\<close>

definition dbl_pos :: "64 word \<Rightarrow> bool" where
  "dbl_pos u \<longleftrightarrow> dbl_finite u \<and> \<not> dbl_sign u"

definition pow_ok :: "(64 word \<Rightarrow> int \<Rightarrow> 64 word) \<Rightarrow> 64 word \<Rightarrow> int \<Rightarrow> bool" where
  "pow_ok pw b y \<longleftrightarrow>
     dbl_pos (pw b y) \<and> \<bar>dbl_val (pw b y) - dbl_val b powi y\<bar> \<le> dbl_val b powi y / 2 ^ 52"

definition in_range :: "real \<Rightarrow> bool" where
  "in_range t \<longleftrightarrow> t = 0 \<or> (2 powi (- 1021) \<le> t \<and> t \<le> 2 powi 1023)"

definition rel_within :: "nat \<Rightarrow> real \<Rightarrow> real \<Rightarrow> bool" where
  "rel_within k t y \<longleftrightarrow> t * (1 - 1 / 2 ^ 53) ^ k \<le> y \<and> y \<le> t * (1 + 1 / 2 ^ 53) ^ k"

section \<open>The run loop (sink.c, context_run_w and context_gc)\<close>

text \<open>
  The program a context runs: the opcode bytes, the string table, the table of native
  hashes and the REPL flag.
\<close>

record program_st =
  ops :: "8 word list"
  strTable :: "string list"
  keyTable :: "64 word list"
  repl :: bool

definition SINK_GC_TICKS :: int where
  "SINK_GC_TICKS = 100"

definition context_gcleft :: "'a context_st_scheme \<Rightarrow> bool \<Rightarrow> 'a context_st_scheme" where
  "context_gcleft ctx st =
     (if st then
        (if gc_level ctx = SINK_GC_DEFAULT then ctx\<lparr>gc_left := 10000\<rparr>
         else if gc_level ctx = SINK_GC_LOWMEM then ctx\<lparr>gc_left := 1000\<rparr>
         else ctx)
      else
        (if gc_level ctx = SINK_GC_DEFAULT then
           (if gc_left ctx > 10000 then ctx\<lparr>gc_left := 10000\<rparr> else ctx)
         else if gc_level ctx = SINK_GC_LOWMEM then
           (if gc_left ctx > 1000 then ctx\<lparr>gc_left := 1000\<rparr> else ctx)
         else ctx))"

text \<open>
  \<open>context_gc\<close>. Clearing the reachability bits, marking and sweeping work on the two
  pools and on state this record does not hold (bitmaps, frames, pinned values); they are
  the parameter \<open>sweep\<close>, which yields the new string table, list table and remaining
  state. The tick accounting after it is the code's.
\<close>

definition context_gc ::
  "('a context_st_scheme \<Rightarrow> str_st list \<times> list_st list \<times> 'a) \<Rightarrow> 'a context_st_scheme \<Rightarrow> 'a context_st_scheme" where
  "context_gc sweep ctx =
     (let (s, l, m) = sweep ctx;
          c1 = context_st.more_update (\<lambda>_. m) (ctx\<lparr>str_tbl := s, list_tbl := l\<rparr>);
          c2 = context_gcleft c1 True
      in if timeout_left c2 \<le> SINK_GC_TICKS then c2\<lparr>timeout_left := 0\<rparr>
         else c2\<lparr>timeout_left := timeout_left c2 - SINK_GC_TICKS\<rparr>)"

text \<open>
  What the body of one \<open>case\<close> of the opcode switch can do: reach its \<open>break\<close>, end the
  run through \<open>RUNDONE(res)\<close>, or return from \<open>GOTWAIT\<close> with a pending wait.
\<close>

datatype op_result = Next | Rundone sink_run | Pending

text \<open>The two blocks that follow the switch inside the loop.\<close>

definition gc_countdown ::
  "('a context_st_scheme \<Rightarrow> str_st list \<times> list_st list \<times> 'a) \<Rightarrow> 'a context_st_scheme \<Rightarrow> 'a context_st_scheme" where
  "gc_countdown sweep ctx =
     (if gc_level ctx \<noteq> SINK_GC_NONE then
        (let c = ctx\<lparr>gc_left := gc_left ctx - 1\<rparr>
         in if gc_left c \<le> 0 then context_gc sweep c else c)
      else ctx)"

definition tick :: "'a context_st_scheme \<Rightarrow> sink_run option \<times> 'a context_st_scheme" where
  "tick ctx =
     (if timeout ctx > 0 then
        (let c = ctx\<lparr>timeout_left := timeout_left ctx - 1\<rparr>
         in if timeout_left c \<le> 0 then (Some SINK_RUN_TIMEOUT, c\<lparr>timeout_left := timeout c\<rparr>)
            else (None, c))
      else (None, ctx))"

text \<open>
  \<open>context_reset\<close> first pops every call record, releasing frames and restoring the
  lexical index and \<open>pc\<close>; that loop is the parameter \<open>unwind\<close>. \<open>RUNDONE\<close> yields the
  result the wait object receives and the context it leaves.
\<close>

definition context_reset ::
  "('a context_st_scheme \<Rightarrow> 'a context_st_scheme) \<Rightarrow> program_st \<Rightarrow> 'a context_st_scheme \<Rightarrow> 'a context_st_scheme" where
  "context_reset unwind prg ctx =
     (let c = unwind ctx
      in c\<lparr>passed := False, failed := False, pc := int (length (ops prg)),
            timeout_left := timeout c\<rparr>)"

definition RUNDONE ::
  "('a context_st_scheme \<Rightarrow> 'a context_st_scheme) \<Rightarrow> program_st \<Rightarrow> sink_run \<Rightarrow> 'a context_st_scheme
     \<Rightarrow> sink_run option \<times> 'a context_st_scheme" where
  "RUNDONE unwind prg res ctx =
     (if res = SINK_RUN_PASS \<or> res = SINK_RUN_FAIL then
        (let c = context_reset unwind prg ctx
         in (Some res, if \<not> repl prg
                       then c\<lparr>passed := (res = SINK_RUN_PASS), failed := (res = SINK_RUN_FAIL)\<rparr>
                       else c))
      else (Some res, ctx))"

text \<open>
  The \<open>while (ctx->pc < ops->size)\<close> loop. The switch over the opcode at \<open>pc\<close> is the
  parameter \<open>exec\<close>: it yields how the case body ended and the context it left. The loop
  need not end (a program may run for ever when no timeout is set), so the function is
  partial: \<open>None\<close> is a run that never returns. The result of a run that returns is the
  status given to the wait object (none while a wait is pending) and the context.
\<close>

partial_function (option) run_loop ::
  "program_st \<Rightarrow> ('a context_st_scheme \<Rightarrow> op_result \<times> 'a context_st_scheme)
     \<Rightarrow> ('a context_st_scheme \<Rightarrow> str_st list \<times> list_st list \<times> 'a)
     \<Rightarrow> ('a context_st_scheme \<Rightarrow> 'a context_st_scheme)
     \<Rightarrow> 'a context_st_scheme \<Rightarrow> (sink_run option \<times> 'a context_st_scheme) option" where
  "run_loop prg exec sweep unwind ctx =
     (if pc ctx < int (length (ops prg)) then
        (case exec ctx of
           (Rundone res, c1) \<Rightarrow> Some (RUNDONE unwind prg res c1)
         | (Pending, c1) \<Rightarrow> Some (None, c1)
         | (Next, c1) \<Rightarrow>
             (case tick (gc_countdown sweep c1) of
                (Some res, c2) \<Rightarrow> Some (RUNDONE unwind prg res c2)
              | (None, c2) \<Rightarrow> run_loop prg exec sweep unwind c2))
      else if repl prg then Some (RUNDONE unwind prg SINK_RUN_REPLMORE ctx)
      else Some (RUNDONE unwind prg SINK_RUN_PASS (ctx\<lparr>passed := True\<rparr>)))"

definition context_run_w ::
  "program_st \<Rightarrow> ('a context_st_scheme \<Rightarrow> op_result \<times> 'a context_st_scheme)
     \<Rightarrow> ('a context_st_scheme \<Rightarrow> str_st list \<times> list_st list \<times> 'a)
     \<Rightarrow> ('a context_st_scheme \<Rightarrow> 'a context_st_scheme)
     \<Rightarrow> 'a context_st_scheme \<Rightarrow> (sink_run option \<times> 'a context_st_scheme) option" where
  "context_run_w prg exec sweep unwind ctx =
     (if passed ctx then Some (RUNDONE unwind prg SINK_RUN_PASS ctx)
      else if failed ctx then Some (RUNDONE unwind prg SINK_RUN_FAIL ctx)
      else if async ctx then Some (RUNDONE unwind prg SINK_RUN_ASYNC ctx)
      else if timeout ctx > 0 \<and> timeout_left ctx \<le> 0
        then Some (RUNDONE unwind prg SINK_RUN_TIMEOUT (ctx\<lparr>timeout_left := timeout ctx\<rparr>))
      else run_loop prg exec sweep unwind ctx)"

section \<open>JSON pickling (sink.c, pk_isjson, pk_tojson and opi_pickle_json)\<close>

text \<open>
  Bytes are characters; \<open>of_char\<close> gives the unsigned value the C code compares. The
  character helpers of the lexer:
\<close>

definition isSpace :: "char \<Rightarrow> bool" where
  "isSpace c = (c = CHR '' '' \<or> c = CHR 0x0A \<or> c = CHR 0x0D \<or> c = CHR 0x09)"

definition isNum :: "char \<Rightarrow> bool" where
  "isNum c = ((48::nat) \<le> of_char c \<and> of_char c \<le> (57::nat))"

definition isHex :: "char \<Rightarrow> bool" where
  "isHex c = (isNum c \<or> ((97::nat) \<le> of_char c \<and> of_char c \<le> (102::nat))
                      \<or> ((65::nat) \<le> of_char c \<and> of_char c \<le> (70::nat)))"

definition toNibble :: "nat \<Rightarrow> char" where
  "toNibble n = (if n \<le> 9 then char_of (48 + n) else if n < 16 then char_of (65 + (n - 10)) else CHR ''0'')"

datatype pkv =
  PKV_START | PKV_NULL1 | PKV_NULL2 | PKV_NULL3 | PKV_NUM_0 | PKV_NUM_NEG | PKV_NUM_INT
| PKV_NUM_FRAC | PKV_NUM_FRACE | PKV_NUM_FRACE2 | PKV_NUM_EXP | PKV_STR | PKV_STR_ESC
| PKV_STR_U1 | PKV_STR_U2 | PKV_STR_U3 | PKV_STR_U4 | PKV_ARRAY | PKV_ENDVAL

text \<open>
  One round of the \<open>switch\<close> of \<open>pk_isjson\<close> on the byte \<open>b\<close> and the byte after it
  \<open>nb\<close> (0 at the end): \<open>None\<close> is \<open>return false\<close>; otherwise the new state, the new
  count of open arrays, and whether the round skipped the next byte (\<open>i++\<close>).
\<close>

definition dot_or_e :: "char \<Rightarrow> bool" where
  "dot_or_e nb = (nb = CHR ''.'' \<or> nb = CHR ''e'' \<or> nb = CHR ''E'')"

fun pk_isjson_step :: "pkv \<Rightarrow> int \<Rightarrow> char \<Rightarrow> char \<Rightarrow> (pkv \<times> int \<times> bool) option" where
  "pk_isjson_step PKV_START arrays b nb =
     (if b = CHR ''n'' then (if nb \<noteq> CHR ''u'' then None else Some (PKV_NULL1, arrays, False))
      else if b = CHR ''0'' then
        (if dot_or_e nb then Some (PKV_NUM_0, arrays, False) else Some (PKV_ENDVAL, arrays, False))
      else if b = CHR ''-'' then Some (PKV_NUM_NEG, arrays, False)
      else if isNum b then
        (if isNum nb then Some (PKV_NUM_INT, arrays, False)
         else if dot_or_e nb then Some (PKV_NUM_0, arrays, False)
         else Some (PKV_ENDVAL, arrays, False))
      else if b = CHR 0x22 then Some (PKV_STR, arrays, False)
      else if b = CHR ''['' then
        (if isSpace nb \<or> nb = CHR '']'' then Some (PKV_ARRAY, arrays + 1, False)
         else Some (PKV_START, arrays + 1, False))
      else if \<not> isSpace b then None
      else Some (PKV_START, arrays, False))"
| "pk_isjson_step PKV_NULL1 arrays b nb =
     (if nb \<noteq> CHR ''l'' then None else Some (PKV_NULL2, arrays, False))"
| "pk_isjson_step PKV_NULL2 arrays b nb =
     (if nb \<noteq> CHR ''l'' then None else Some (PKV_NULL3, arrays, False))"
| "pk_isjson_step PKV_NULL3 arrays b nb = Some (PKV_ENDVAL, arrays, False)"
| "pk_isjson_step PKV_NUM_0 arrays b nb =
     (if b = CHR ''.'' then Some (PKV_NUM_FRAC, arrays, False)
      else if b = CHR ''e'' \<or> b = CHR ''E'' then
        Some (PKV_NUM_EXP, arrays, nb = CHR ''+'' \<or> nb = CHR ''-'')
      else None)"
| "pk_isjson_step PKV_NUM_NEG arrays b nb =
     (if b = CHR ''0'' then
        (if dot_or_e nb then Some (PKV_NUM_0, arrays, False) else Some (PKV_ENDVAL, arrays, False))
      else if isNum b then
        (if isNum nb then Some (PKV_NUM_INT, arrays, False)
         else if dot_or_e nb then Some (PKV_NUM_0, arrays, False)
         else Some (PKV_ENDVAL, arrays, False))
      else None)"
| "pk_isjson_step PKV_NUM_INT arrays b nb =
     (if \<not> isNum b then None
      else if dot_or_e nb then Some (PKV_NUM_0, arrays, False)
      else if \<not> isNum nb then Some (PKV_ENDVAL, arrays, False)
      else Some (PKV_NUM_INT, arrays, False))"
| "pk_isjson_step PKV_NUM_FRAC arrays b nb =
     (if \<not> isNum b then None
      else if nb = CHR ''e'' \<or> nb = CHR ''E'' then Some (PKV_NUM_FRACE, arrays, False)
      else if \<not> isNum nb then Some (PKV_ENDVAL, arrays, False)
      else Some (PKV_NUM_FRAC, arrays, False))"
| "pk_isjson_step PKV_NUM_FRACE arrays b nb = Some (PKV_NUM_FRACE2, arrays, False)"
| "pk_isjson_step PKV_NUM_FRACE2 arrays b nb =
     (if isNum b then
        (if isNum nb then Some (PKV_NUM_EXP, arrays, False) else Some (PKV_ENDVAL, arrays, False))
      else if b = CHR ''+'' \<or> b = CHR ''-'' then Some (PKV_NUM_EXP, arrays, False)
      else None)"
| "pk_isjson_step PKV_NUM_EXP arrays b nb =
     (if \<not> isNum b then None
      else if \<not> isNum nb then Some (PKV_ENDVAL, arrays, False)
      else Some (PKV_NUM_EXP, arrays, False))"
| "pk_isjson_step PKV_STR arrays b nb =
     (if b = CHR 0x5C then Some (PKV_STR_ESC, arrays, False)
      else if b = CHR 0x22 then Some (PKV_ENDVAL, arrays, False)
      else if of_char b < (32::nat) then None
      else Some (PKV_STR, arrays, False))"
| "pk_isjson_step PKV_STR_ESC arrays b nb =
     (if b = CHR 0x22 \<or> b = CHR 0x5C \<or> b = CHR ''/'' \<or> b = CHR ''b'' \<or> b = CHR ''f'' \<or>
         b = CHR ''n'' \<or> b = CHR ''r'' \<or> b = CHR ''t'' then Some (PKV_STR, arrays, False)
      else if b = CHR ''u'' then
        (if nb \<noteq> CHR ''0'' then None else Some (PKV_STR_U1, arrays, False))
      else None)"
| "pk_isjson_step PKV_STR_U1 arrays b nb =
     (if nb \<noteq> CHR ''0'' then None else Some (PKV_STR_U2, arrays, False))"
| "pk_isjson_step PKV_STR_U2 arrays b nb =
     (if \<not> isHex nb then None else Some (PKV_STR_U3, arrays, False))"
| "pk_isjson_step PKV_STR_U3 arrays b nb =
     (if \<not> isHex nb then None else Some (PKV_STR_U4, arrays, False))"
| "pk_isjson_step PKV_STR_U4 arrays b nb = Some (PKV_STR, arrays, False)"
| "pk_isjson_step PKV_ARRAY arrays b nb =
     (if b = CHR '']'' then Some (PKV_ENDVAL, arrays, False)
      else if \<not> isSpace nb \<and> nb \<noteq> CHR '']'' then Some (PKV_START, arrays, False)
      else Some (PKV_ARRAY, arrays, False))"
| "pk_isjson_step PKV_ENDVAL arrays b nb =
     (if arrays > 0 then
        (if b = CHR '','' then Some (PKV_START, arrays, False)
         else if b = CHR '']'' then Some (PKV_ENDVAL, arrays - 1, False)
         else if \<not> isSpace b then None
         else Some (PKV_ENDVAL, arrays, False))
      else if \<not> isSpace b then None
      else Some (PKV_ENDVAL, arrays, False))"

function pk_isjson_loop :: "pkv \<Rightarrow> int \<Rightarrow> string \<Rightarrow> bool" where
  "pk_isjson_loop state arrays [] = (state = PKV_ENDVAL)"
| "pk_isjson_loop state arrays (b # rest) =
     (case pk_isjson_step state arrays b (case rest of [] \<Rightarrow> CHR 0x00 | nb # _ \<Rightarrow> nb) of
        None \<Rightarrow> False
      | Some (state', arrays', skip) \<Rightarrow>
          pk_isjson_loop state' arrays' (if skip then drop 1 rest else rest))"
  by pat_completeness auto
termination
  by (relation "measure (\<lambda>(state, arrays, s). length s)") auto

definition pk_isjson :: "string \<Rightarrow> bool" where
  "pk_isjson s = pk_isjson_loop PKV_START 0 s"

text \<open>
  \<open>numtostr\<close>: the text \<open>snprintf\<close> produces for \<open>"%.16g"\<close> is the C library's; it is
  the parameter \<open>fmt\<close>. The code then turns \<open>-0\<close> into \<open>0\<close>.
\<close>

definition numtostr :: "(64 word \<Rightarrow> string) \<Rightarrow> 64 word \<Rightarrow> string" where
  "numtostr fmt num = (if fmt num = ''-0'' then ''0'' else fmt num)"

text \<open>The bytes \<open>pk_tojson\<close> writes for one byte of a string.\<close>

definition pk_tojson_byte :: "char \<Rightarrow> string" where
  "pk_tojson_byte b =
     (if b = CHR 0x22 \<or> b = CHR 0x5C then [CHR 0x5C, b]
      else if b = CHR 0x08 then [CHR 0x5C, CHR ''b'']
      else if b = CHR 0x0C then [CHR 0x5C, CHR ''f'']
      else if b = CHR 0x0A then [CHR 0x5C, CHR ''n'']
      else if b = CHR 0x0D then [CHR 0x5C, CHR ''r'']
      else if b = CHR 0x09 then [CHR 0x5C, CHR ''t'']
      else if of_char b < (0x20::nat) \<or> of_char b \<ge> (0x80::nat) then
        [CHR 0x5C, CHR ''u'', CHR ''0'', CHR ''0'',
         toNibble ((of_char b div 16) mod 16), toNibble (of_char b mod 16)]
      else [b])"

text \<open>
  \<open>pk_tojson\<close>. The result \<open>Inr (Some s)\<close> is \<open>true\<close> with the text \<open>s\<close>, \<open>Inr None\<close> is
  \<open>false\<close>, and \<open>Inl Undefined\<close> is a read at an index outside a pool table. \<open>li\<close> is
  the stack of list indices being rendered; the code pops it only on success, and every
  caller gives up at once on failure, so the stack is passed down and never read back.
  \<open>pk_tojson_vals\<close> is the \<open>for\<close> loop over the elements with the texts made so far.
\<close>

function pk_tojson :: "(64 word \<Rightarrow> string) \<Rightarrow> 'a context_st_scheme \<Rightarrow> sink_val \<Rightarrow> nat list \<Rightarrow> fault + string option"
  and pk_tojson_vals :: "(64 word \<Rightarrow> string) \<Rightarrow> 'a context_st_scheme \<Rightarrow> sink_val list \<Rightarrow> nat list \<Rightarrow> string list
        \<Rightarrow> fault + string list option" where
  "pk_tojson fmt ctx a li =
     (case sink_typeof a of
        SINK_TYPE_NIL \<Rightarrow> Inr (Some ''null'')
      | SINK_TYPE_NUM \<Rightarrow>
          (if pk_isjson (numtostr fmt a) then Inr (Some (numtostr fmt a)) else Inr (Some ''null''))
      | SINK_TYPE_STR \<Rightarrow>
          (if \<not> var_index a < length (str_tbl ctx) then Inl Undefined
           else Inr (Some ([CHR 0x22] @ concat (map pk_tojson_byte (str_tbl ctx ! var_index a)) @ [CHR 0x22])))
      | SINK_TYPE_LIST \<Rightarrow>
          (if var_index a \<in> set li then Inr None
           else if \<not> var_index a < length (list_tbl ctx) then Inl Undefined
           else
             (case pk_tojson_vals fmt ctx (vals (list_tbl ctx ! var_index a)) (var_index a # li) [] of
                Inl f \<Rightarrow> Inl f
              | Inr None \<Rightarrow> Inr None
              | Inr (Some strs) \<Rightarrow>
                  Inr (Some (''['' @ concat (case strs of [] \<Rightarrow> [] | s # ss \<Rightarrow> s # map (\<lambda>t. '','' @ t) ss) @ '']'')))))"
| "pk_tojson_vals fmt ctx [] li strs = Inr (Some strs)"
| "pk_tojson_vals fmt ctx (v # vs) li strs =
     (case pk_tojson fmt ctx v li of
        Inl f \<Rightarrow> Inl f
      | Inr None \<Rightarrow> Inr None
      | Inr (Some s2) \<Rightarrow> pk_tojson_vals fmt ctx vs li (strs @ [s2]))"
  by pat_completeness auto
termination
proof (relation "measures
    [\<lambda>x. case x of
            Inl (fmt, ctx, a, li) \<Rightarrow> card ({..<length (list_tbl ctx)} - set li)
          | Inr (fmt, ctx, vs, li, strs) \<Rightarrow> card ({..<length (list_tbl ctx)} - set li),
     \<lambda>x. case x of Inl _ \<Rightarrow> 0 | Inr (fmt, ctx, vs, li, strs) \<Rightarrow> Suc (length vs)]",
    goal_cases)
  case 1
  then show ?case by simp
next
  case (2 fmt ctx a li)
  then have "var_index a \<in> {..<length (list_tbl ctx)} - set li" by simp
  then have "{..<length (list_tbl ctx)} - set (var_index a # li) \<subset> {..<length (list_tbl ctx)} - set li"
    by auto
  then have "card ({..<length (list_tbl ctx)} - set (var_index a # li)) < card ({..<length (list_tbl ctx)} - set li)"
    by (intro psubset_card_mono) auto
  then show ?case by simp
next
  case 3
  then show ?case by simp
next
  case 4
  then show ?case by simp
qed

declare pk_tojson.simps [simp del]

text \<open>
  \<open>opi_abort\<close> marks the context failed and stores the message, prefixed by
  \<open>Error:\<close> and followed by the call-stack lines that \<open>callstack_append\<close> makes from the
  program's debug tables; those lines are the parameter \<open>trace\<close>.
\<close>

definition opi_abortcstr :: "(string \<Rightarrow> string) \<Rightarrow> 'a context_st_scheme \<Rightarrow> string \<Rightarrow> 'a context_st_scheme" where
  "opi_abortcstr trace ctx msg = ctx\<lparr>failed := True, err := Some (''Error: '' @ trace msg)\<rparr>"

text \<open>
  \<open>opi_pickle_json\<close>. The result is the context and the value returned: \<open>None\<close> for
  \<open>SINK_NIL\<close>, \<open>Some s\<close> for the new string made from the bytes \<open>s\<close> by
  \<open>sink_str_newblobgive\<close> (the allocation of its slot is \<open>bmp_reserve\<close> above).
\<close>

definition opi_pickle_json ::
  "(64 word \<Rightarrow> string) \<Rightarrow> (string \<Rightarrow> string) \<Rightarrow> 'a context_st_scheme \<Rightarrow> sink_val
     \<Rightarrow> fault + ('a context_st_scheme \<times> string option)" where
  "opi_pickle_json fmt trace ctx a =
     (case pk_tojson fmt ctx a [] of
        Inl f \<Rightarrow> Inl f
      | Inr None \<Rightarrow>
          Inr (if \<not> failed ctx
               then opi_abortcstr trace ctx ''Cannot pickle circular structure to JSON format''
               else ctx, None)
      | Inr (Some s) \<Rightarrow> Inr (ctx, Some s))"

subsection \<open>Reference cycles\<close>

text \<open>
  The lists of a context form a graph: list \<open>i\<close> points to list \<open>j\<close> when an element of
  list \<open>i\<close> is the list value with index \<open>j\<close>. A value contains a reference cycle when
  it is a list from which some list can be reached that can reach itself.
\<close>

definition list_edges :: "'a context_st_scheme \<Rightarrow> (nat \<times> nat) set" where
  "list_edges ctx =
     {(i, j). i < length (list_tbl ctx) \<and>
              (\<exists>v \<in> set (vals (list_tbl ctx ! i)). sink_islist v \<and> var_index v = j)}"

definition has_cycle :: "'a context_st_scheme \<Rightarrow> sink_val \<Rightarrow> bool" where
  "has_cycle ctx a =
     (sink_islist a \<and>
      (\<exists>j. (var_index a, j) \<in> (list_edges ctx)\<^sup>* \<and> (j, j) \<in> (list_edges ctx)\<^sup>+))"

text \<open>
  The invariant of the data model: the index of every string or list value refers to a
  slot of its pool.
\<close>

definition valid_val :: "'a context_st_scheme \<Rightarrow> sink_val \<Rightarrow> bool" where
  "valid_val ctx v =
     ((sink_isstr v \<longrightarrow> var_index v < length (str_tbl ctx)) \<and>
      (sink_islist v \<longrightarrow> var_index v < length (list_tbl ctx)))"

definition pools_valid :: "'a context_st_scheme \<Rightarrow> bool" where
  "pools_valid ctx = (\<forall>ls \<in> set (list_tbl ctx). \<forall>v \<in> set (vals ls). valid_val ctx v)"

text \<open>
  The search of \<open>pk_tojson\<close> with the stack \<open>li\<close> meets a list that is on its stack.
\<close>

inductive on_stack :: "'a context_st_scheme \<Rightarrow> nat list \<Rightarrow> sink_val \<Rightarrow> bool" for ctx where
  hit: "sink_islist a \<Longrightarrow> var_index a \<in> set li \<Longrightarrow> on_stack ctx li a"
| down: "sink_islist a \<Longrightarrow> var_index a \<notin> set li \<Longrightarrow> var_index a < length (list_tbl ctx) \<Longrightarrow>
         v \<in> set (vals (list_tbl ctx ! var_index a)) \<Longrightarrow> on_stack ctx (var_index a # li) v \<Longrightarrow>
         on_stack ctx li a"

section \<open>Ordering values (sink.c, sortboth and opi_order)\<close>

text \<open>
  \<open>memcmp\<close> over the common prefix of two byte strings: the sign of the first unsigned
  difference, 0 when the prefix of the shorter length is the same.
\<close>

fun memcmp :: "string \<Rightarrow> string \<Rightarrow> int" where
  "memcmp (x # xs) (y # ys) =
     (if x = y then memcmp xs ys else if (of_char x :: nat) < of_char y then - 1 else 1)"
| "memcmp _ _ = 0"

text \<open>
  \<open>sortboth\<close>. The result is the integer returned and whether the comparison called
  \<open>opi_abortcstr\<close> (with "Cannot sort circular lists", the only message it uses);
  \<open>Inl Undefined\<close> is a read at an index outside a pool table. \<open>li\<close> is the stack of
  list indices under comparison; the code pops what it pushed on every return, so the
  stack is passed down. \<open>sortboth_vals\<close> is the \<open>for\<close> loop over the first \<open>minsize\<close>
  pairs of elements: it yields the first non-zero result, or 0.
\<close>

function sortboth :: "'a context_st_scheme \<Rightarrow> nat list \<Rightarrow> sink_val \<Rightarrow> sink_val \<Rightarrow> fault + (int \<times> bool)"
  and sortboth_vals :: "'a context_st_scheme \<Rightarrow> nat list \<Rightarrow> sink_val list \<Rightarrow> sink_val list \<Rightarrow> fault + (int \<times> bool)" where
  "sortboth ctx li a b =
     (if a = b then Inr (0, False)
      else if sink_typeof a \<noteq> sink_typeof b then
        (if sink_typeof a = SINK_TYPE_NIL then Inr (- 1, False)
         else if sink_typeof a = SINK_TYPE_NUM then
           Inr (if sink_typeof b = SINK_TYPE_NIL then 1 else - 1, False)
         else if sink_typeof a = SINK_TYPE_STR then
           Inr (if sink_typeof b = SINK_TYPE_LIST then - 1 else 1, False)
         else Inr (1, False))
      else if sink_typeof a = SINK_TYPE_NUM then
        (if sink_num_isnan a then (if sink_num_isnan b then Inr (0, False) else Inr (- 1, False))
         else if sink_num_isnan b then Inr (1, False)
         else Inr (if dbl_lt a b then - 1 else 1, False))
      else if sink_typeof a = SINK_TYPE_STR then
        (if \<not> var_index a < length (str_tbl ctx) \<or> \<not> var_index b < length (str_tbl ctx)
         then Inl Undefined
         else
           let s1 = str_tbl ctx ! var_index a; s2 = str_tbl ctx ! var_index b
           in if length s1 = 0 then (if length s2 = 0 then Inr (0, False) else Inr (- 1, False))
              else if length s2 = 0 then Inr (1, False)
              else
                let res = memcmp s1 s2
                in if res = 0 then
                     Inr (if length s1 = length s2 then 0
                          else if length s1 < length s2 then - 1 else 1, False)
                   else Inr (if res < 0 then - 1 else 1, False))
      else if var_index a \<in> set li \<or> var_index b \<in> set li then Inr (- 1, True)
      else if \<not> var_index a < length (list_tbl ctx) \<or> \<not> var_index b < length (list_tbl ctx)
        then Inl Undefined
      else
        let ls1 = vals (list_tbl ctx ! var_index a); ls2 = vals (list_tbl ctx ! var_index b)
        in if length ls1 = 0 then (if length ls2 = 0 then Inr (0, False) else Inr (- 1, False))
           else if length ls2 = 0 then Inr (1, False)
           else
             (case sortboth_vals ctx (var_index b # var_index a # li) ls1 ls2 of
                Inl f \<Rightarrow> Inl f
              | Inr (res, ab) \<Rightarrow>
                  if res \<noteq> 0 then Inr (res, ab)
                  else if length ls1 < length ls2 then Inr (- 1, ab)
                  else if length ls1 > length ls2 then Inr (1, ab)
                  else Inr (0, ab)))"
| "sortboth_vals ctx li (x # xs) (y # ys) =
     (case sortboth ctx li x y of
        Inl f \<Rightarrow> Inl f
      | Inr (res, ab) \<Rightarrow>
          if res \<noteq> 0 then Inr (res, ab)
          else (case sortboth_vals ctx li xs ys of
                  Inl f \<Rightarrow> Inl f
                | Inr (res2, ab2) \<Rightarrow> Inr (res2, ab \<or> ab2)))"
| "sortboth_vals ctx li [] ys = Inr (0, False)"
| "sortboth_vals ctx li (x # xs) [] = Inr (0, False)"
  by pat_completeness auto
termination
proof (relation "measures
    [\<lambda>x. case x of
            Inl (ctx, li, a, b) \<Rightarrow> card ({..<length (list_tbl ctx)} - set li)
          | Inr (ctx, li, xs, ys) \<Rightarrow> card ({..<length (list_tbl ctx)} - set li),
     \<lambda>x. case x of Inl _ \<Rightarrow> 0 | Inr (ctx, li, xs, ys) \<Rightarrow> Suc (length xs)]",
    goal_cases)
  case 1
  then show ?case by simp
next
  case (2 ctx li a b)
  then have "var_index a \<in> {..<length (list_tbl ctx)} - set li" by simp
  then have "{..<length (list_tbl ctx)} - set (var_index b # var_index a # li)
               \<subset> {..<length (list_tbl ctx)} - set li"
    by auto
  then have "card ({..<length (list_tbl ctx)} - set (var_index b # var_index a # li))
               < card ({..<length (list_tbl ctx)} - set li)"
    by (intro psubset_card_mono) auto
  then show ?case by simp
next
  case 3
  then show ?case by simp
next
  case 4
  then show ?case by simp
qed

declare sortboth.simps [simp del]

text \<open>\<open>opi_order\<close>: the integer returned and the context left.\<close>

definition opi_order ::
  "(string \<Rightarrow> string) \<Rightarrow> 'a context_st_scheme \<Rightarrow> sink_val \<Rightarrow> sink_val \<Rightarrow> fault + (int \<times> 'a context_st_scheme)" where
  "opi_order trace ctx a b =
     (case sortboth ctx [] a b of
        Inl f \<Rightarrow> Inl f
      | Inr (res, ab) \<Rightarrow>
          Inr (res, if ab then opi_abortcstr trace ctx ''Cannot sort circular lists'' else ctx))"

section \<open>Program validation and the call opcode (sink.c)\<close>

datatype op_pcat =
  OPPC_INVALID | OPPC_STR | OPPC_CMDHEAD | OPPC_CMDTAIL | OPPC_JUMP | OPPC_VJUMP | OPPC_CALL
| OPPC_ISNATIVE | OPPC_NATIVE | OPPC_RETURNTAIL | OPPC_VVVV | OPPC_VVV | OPPC_VV | OPPC_V
| OPPC_EMPTY | OPPC_VA | OPPC_VN | OPPC_VNN | OPPC_VNNNN | OPPC_VNNNNNNNN

text \<open>
  \<open>op_paramcat\<close>: the \<open>switch\<close> over \<open>op_enum\<close>, as the table of the categories of
  the opcodes \<open>0x00\<close> to \<open>0x98\<close> in the order of the enumeration. Every other byte has
  no case (the pseudo opcodes from \<open>0x1F0\<close> on do not fit a byte) and is \<open>OPPC_INVALID\<close>.
\<close>

definition op_paramcat_table :: "op_pcat list" where
  "op_paramcat_table =
    [
     \<comment> \<open>0x00: OP_NOP OP_MOVE OP_INC OP_NIL\<close>
     OPPC_EMPTY, OPPC_VV, OPPC_V, OPPC_V,
     \<comment> \<open>0x04: OP_NUMP8 OP_NUMN8 OP_NUMP16 OP_NUMN16\<close>
     OPPC_VN, OPPC_VN, OPPC_VNN, OPPC_VNN,
     \<comment> \<open>0x08: OP_NUMP32 OP_NUMN32 OP_NUMDBL OP_STR\<close>
     OPPC_VNNNN, OPPC_VNNNN, OPPC_VNNNNNNNN, OPPC_STR,
     \<comment> \<open>0x0C: OP_LIST OP_ISNUM OP_ISSTR OP_ISLIST\<close>
     OPPC_VN, OPPC_VV, OPPC_VV, OPPC_VV,
     \<comment> \<open>0x10: OP_NOT OP_SIZE OP_TONUM OP_CAT\<close>
     OPPC_VV, OPPC_VV, OPPC_VV, OPPC_VA,
     \<comment> \<open>0x14: OP_LT OP_LTE OP_NEQ OP_EQU\<close>
     OPPC_VVV, OPPC_VVV, OPPC_VVV, OPPC_VVV,
     \<comment> \<open>0x18: OP_GETAT OP_SLICE OP_SETAT OP_SPLICE\<close>
     OPPC_VVV, OPPC_VVVV, OPPC_VVV, OPPC_VVVV,
     \<comment> \<open>0x1C: OP_JUMP OP_JUMPTRUE OP_JUMPFALSE OP_CMDHEAD\<close>
     OPPC_JUMP, OPPC_VJUMP, OPPC_VJUMP, OPPC_CMDHEAD,
     \<comment> \<open>0x20: OP_CMDTAIL OP_CALL OP_ISNATIVE OP_NATIVE\<close>
     OPPC_CMDTAIL, OPPC_CALL, OPPC_ISNATIVE, OPPC_NATIVE,
     \<comment> \<open>0x24: OP_RETURN OP_RETURNTAIL OP_RANGE OP_ORDER\<close>
     OPPC_V, OPPC_RETURNTAIL, OPPC_VVVV, OPPC_VVV,
     \<comment> \<open>0x28: OP_SAY OP_WARN OP_ASK OP_EXIT\<close>
     OPPC_VA, OPPC_VA, OPPC_VA, OPPC_VA,
     \<comment> \<open>0x2C: OP_ABORT OP_STACKTRACE OP_NUM_NEG OP_NUM_ADD\<close>
     OPPC_VA, OPPC_V, OPPC_VV, OPPC_VVV,
     \<comment> \<open>0x30: OP_NUM_SUB OP_NUM_MUL OP_NUM_DIV OP_NUM_MOD\<close>
     OPPC_VVV, OPPC_VVV, OPPC_VVV, OPPC_VVV,
     \<comment> \<open>0x34: OP_NUM_POW OP_NUM_ABS OP_NUM_SIGN OP_NUM_MAX\<close>
     OPPC_VVV, OPPC_VV, OPPC_VV, OPPC_VA,
     \<comment> \<open>0x38: OP_NUM_MIN OP_NUM_CLAMP OP_NUM_FLOOR OP_NUM_CEIL\<close>
     OPPC_VA, OPPC_VVVV, OPPC_VV, OPPC_VV,
     \<comment> \<open>0x3C: OP_NUM_ROUND OP_NUM_TRUNC OP_NUM_NAN OP_NUM_INF\<close>
     OPPC_VV, OPPC_VV, OPPC_V, OPPC_V,
     \<comment> \<open>0x40: OP_NUM_ISNAN OP_NUM_ISFINITE OP_NUM_SIN OP_NUM_COS\<close>
     OPPC_VV, OPPC_VV, OPPC_VV, OPPC_VV,
     \<comment> \<open>0x44: OP_NUM_TAN OP_NUM_ASIN OP_NUM_ACOS OP_NUM_ATAN\<close>
     OPPC_VV, OPPC_VV, OPPC_VV, OPPC_VV,
     \<comment> \<open>0x48: OP_NUM_ATAN2 OP_NUM_LOG OP_NUM_LOG2 OP_NUM_LOG10\<close>
     OPPC_VVV, OPPC_VV, OPPC_VV, OPPC_VV,
     \<comment> \<open>0x4C: OP_NUM_EXP OP_NUM_LERP OP_NUM_HEX OP_NUM_OCT\<close>
     OPPC_VV, OPPC_VVVV, OPPC_VVV, OPPC_VVV,
     \<comment> \<open>0x50: OP_NUM_BIN OP_INT_NEW OP_INT_NOT OP_INT_AND\<close>
     OPPC_VVV, OPPC_VV, OPPC_VV, OPPC_VA,
     \<comment> \<open>0x54: OP_INT_OR OP_INT_XOR OP_INT_SHL OP_INT_SHR\<close>
     OPPC_VA, OPPC_VA, OPPC_VVV, OPPC_VVV,
     \<comment> \<open>0x58: OP_INT_SAR OP_INT_ADD OP_INT_SUB OP_INT_MUL\<close>
     OPPC_VVV, OPPC_VVV, OPPC_VVV, OPPC_VVV,
     \<comment> \<open>0x5C: OP_INT_DIV OP_INT_MOD OP_INT_CLZ OP_INT_POP\<close>
     OPPC_VVV, OPPC_VVV, OPPC_VV, OPPC_VV,
     \<comment> \<open>0x60: OP_INT_BSWAP OP_RAND_SEED OP_RAND_SEEDAUTO OP_RAND_INT\<close>
     OPPC_VV, OPPC_VV, OPPC_V, OPPC_V,
     \<comment> \<open>0x64: OP_RAND_NUM OP_RAND_RANGE OP_RAND_GETSTATE OP_RAND_SETSTATE\<close>
     OPPC_V, OPPC_VVVV, OPPC_V, OPPC_VV,
     \<comment> \<open>0x68: OP_RAND_PICK OP_RAND_SHUFFLE OP_STR_NEW OP_STR_SPLIT\<close>
     OPPC_VV, OPPC_VV, OPPC_VA, OPPC_VVV,
     \<comment> \<open>0x6C: OP_STR_REPLACE OP_STR_BEGINS OP_STR_ENDS OP_STR_PAD\<close>
     OPPC_VVVV, OPPC_VVV, OPPC_VVV, OPPC_VVV,
     \<comment> \<open>0x70: OP_STR_FIND OP_STR_RFIND OP_STR_LOWER OP_STR_UPPER\<close>
     OPPC_VVVV, OPPC_VVVV, OPPC_VV, OPPC_VV,
     \<comment> \<open>0x74: OP_STR_TRIM OP_STR_REV OP_STR_REP OP_STR_LIST\<close>
     OPPC_VV, OPPC_VV, OPPC_VVV, OPPC_VV,
     \<comment> \<open>0x78: OP_STR_BYTE OP_STR_HASH OP_UTF8_VALID OP_UTF8_LIST\<close>
     OPPC_VVV, OPPC_VVV, OPPC_VV, OPPC_VV,
     \<comment> \<open>0x7C: OP_UTF8_STR OP_STRUCT_SIZE OP_STRUCT_STR OP_STRUCT_LIST\<close>
     OPPC_VV, OPPC_VV, OPPC_VVV, OPPC_VVV,
     \<comment> \<open>0x80: OP_STRUCT_ISLE OP_LIST_NEW OP_LIST_SHIFT OP_LIST_POP\<close>
     OPPC_V, OPPC_VVV, OPPC_VV, OPPC_VV,
     \<comment> \<open>0x84: OP_LIST_PUSH OP_LIST_UNSHIFT OP_LIST_APPEND OP_LIST_PREPEND\<close>
     OPPC_VVV, OPPC_VVV, OPPC_VVV, OPPC_VVV,
     \<comment> \<open>0x88: OP_LIST_FIND OP_LIST_RFIND OP_LIST_JOIN OP_LIST_REV\<close>
     OPPC_VVVV, OPPC_VVVV, OPPC_VVV, OPPC_VV,
     \<comment> \<open>0x8C: OP_LIST_STR OP_LIST_SORT OP_LIST_RSORT OP_PICKLE_JSON\<close>
     OPPC_VV, OPPC_VV, OPPC_VV, OPPC_VV,
     \<comment> \<open>0x90: OP_PICKLE_BIN OP_PICKLE_VAL OP_PICKLE_VALID OP_PICKLE_SIBLING\<close>
     OPPC_VV, OPPC_VV, OPPC_VV, OPPC_VV,
     \<comment> \<open>0x94: OP_PICKLE_CIRCULAR OP_PICKLE_COPY OP_GC_GETLEVEL OP_GC_SETLEVEL\<close>
     OPPC_VV, OPPC_VV, OPPC_V, OPPC_VV,
     \<comment> \<open>0x98: OP_GC_RUN\<close>
     OPPC_V
    ]"

definition op_paramcat :: "8 word \<Rightarrow> op_pcat" where
  "op_paramcat op =
     (if unat op < length op_paramcat_table then op_paramcat_table ! unat op else OPPC_INVALID)"

definition OP_CMDHEAD :: "8 word" where "OP_CMDHEAD = 0x1F"
definition OP_CALL :: "8 word" where "OP_CALL = 0x21"

text \<open>
  The local state of \<open>program_validate\<close>: \<open>jumploc\<close> and \<open>jumplocs\<close> are
  \<open>uint32_t\<close>, \<open>op_actual\<close> and \<open>op_need\<close> hold one entry per opcode byte. The scratch
  variables \<open>A\<close> to \<open>D\<close> are local to each macro here.
\<close>

record vstate =
  v_pc :: nat
  v_level :: int
  v_wasjump :: bool
  v_jumploc :: nat
  v_jumplocs :: "nat list"
  op_actual :: "nat list"
  op_need :: "nat list"

text \<open>
  \<open>A + (B << 8) + (C << 16) + ((D << 23) * 2)\<close>: read as \<open>uint32_t\<close> it is the
  little-endian value, read as \<open>int\<close> it is negative from \<open>2^31\<close> on.
\<close>

definition le32 :: "8 word \<Rightarrow> 8 word \<Rightarrow> 8 word \<Rightarrow> 8 word \<Rightarrow> nat" where
  "le32 a b c d = unat a + unat b * 2 ^ 8 + unat c * 2 ^ 16 + unat d * 2 ^ 24"

definition le32s :: "8 word \<Rightarrow> 8 word \<Rightarrow> 8 word \<Rightarrow> 8 word \<Rightarrow> int" where
  "le32s a b c d = (if le32 a b c d \<ge> 2 ^ 31 then int (le32 a b c d) - 2 ^ 32 else int (le32 a b c d))"

text \<open>The macros; \<open>None\<close> is \<open>goto fail\<close>.\<close>

definition READVAR :: "8 word list \<Rightarrow> vstate \<Rightarrow> vstate option" where
  "READVAR bytes st =
     (if v_pc st + 2 > length bytes then None
      else if int (unat (bytes ! v_pc st)) > v_level st then None
      else Some (st\<lparr>v_pc := v_pc st + 2\<rparr>))"

definition READLOC :: "8 word list \<Rightarrow> nat \<Rightarrow> vstate \<Rightarrow> vstate option" where
  "READLOC bytes L st =
     (if v_pc st + 4 > length bytes then None
      else
        let j = le32 (bytes ! v_pc st) (bytes ! (v_pc st + 1)) (bytes ! (v_pc st + 2))
                  (bytes ! (v_pc st + 3));
            st1 = st\<lparr>v_pc := v_pc st + 4, v_jumploc := j\<rparr>
        in if j \<ge> 0x80000000 then None
           else if j < length bytes then Some (st1\<lparr>op_need := (op_need st1)[j := L]\<rparr>)
           else Some st1)"

definition READDATA :: "8 word list \<Rightarrow> nat \<Rightarrow> vstate \<Rightarrow> vstate option" where
  "READDATA bytes S st =
     (if v_pc st + S > length bytes then None else Some (st\<lparr>v_pc := v_pc st + S\<rparr>))"

fun READVARS :: "8 word list \<Rightarrow> nat \<Rightarrow> vstate \<Rightarrow> vstate option" where
  "READVARS bytes 0 st = Some st"
| "READVARS bytes (Suc n) st =
     (case READVAR bytes st of None \<Rightarrow> None | Some st1 \<Rightarrow> READVARS bytes n st1)"

definition READCNT :: "8 word list \<Rightarrow> vstate \<Rightarrow> vstate option" where
  "READCNT bytes st =
     (if v_pc st + 1 > length bytes then None
      else READVARS bytes (unat (bytes ! v_pc st)) (st\<lparr>v_pc := v_pc st + 1\<rparr>))"

definition READINDEX :: "8 word list \<Rightarrow> vstate \<Rightarrow> (int \<times> vstate) option" where
  "READINDEX bytes st =
     (if v_pc st + 4 > length bytes then None
      else Some (le32s (bytes ! v_pc st) (bytes ! (v_pc st + 1)) (bytes ! (v_pc st + 2))
                   (bytes ! (v_pc st + 3)),
                 st\<lparr>v_pc := v_pc st + 4\<rparr>))"

text \<open>
  The \<open>switch\<close> on the category, entered after \<open>op_actual[pc] = 1\<close> and \<open>pc++\<close>.
\<close>

definition validate_case :: "program_st \<Rightarrow> op_pcat \<Rightarrow> vstate \<Rightarrow> vstate option" where
  "validate_case prg opc st =
     (let bytes = ops prg in
      case opc of
        OPPC_INVALID \<Rightarrow> None
      | OPPC_STR \<Rightarrow>
          Option.bind (READVAR bytes st) (\<lambda>s1.
          Option.bind (READINDEX bytes s1) (\<lambda>(A, s2).
            if A < 0 \<or> A \<ge> int (length (strTable prg)) then None else Some s2))
      | OPPC_CMDHEAD \<Rightarrow>
          if \<not> v_wasjump st then None
          else if v_pc st + 2 > length bytes then None
          else
            let s1 = st\<lparr>op_actual := (op_actual st)[v_pc st - 1 := 2]\<rparr>
            in if v_level s1 > 255 then None
               else
                 let s2 = s1\<lparr>v_jumplocs := (v_jumplocs s1)[nat (v_level s1) := v_jumploc s1],
                             v_level := v_level s1 + 1\<rparr>;
                     s3 = s2\<lparr>v_pc := v_pc s2 + 2\<rparr>
                 in if int (unat (bytes ! v_pc s2)) \<noteq> v_level s3 then None else Some s3
      | OPPC_CMDTAIL \<Rightarrow>
          if v_level st \<le> 0 then None
          else
            let s1 = st\<lparr>v_level := v_level st - 1\<rparr>
            in if v_jumplocs s1 ! nat (v_level s1) \<noteq> v_pc s1 then None else Some s1
      | OPPC_JUMP \<Rightarrow> READLOC bytes 1 st
      | OPPC_VJUMP \<Rightarrow> Option.bind (READVAR bytes st) (READLOC bytes 1)
      | OPPC_CALL \<Rightarrow>
          Option.bind (READVAR bytes st) (\<lambda>s1.
          Option.bind (READLOC bytes 2 s1) (READCNT bytes))
      | OPPC_ISNATIVE \<Rightarrow>
          Option.bind (READVAR bytes st) (\<lambda>s1.
          Option.bind (READINDEX bytes s1) (\<lambda>(A, s2).
            if A < 0 \<or> A \<ge> int (length (keyTable prg)) then None else Some s2))
      | OPPC_NATIVE \<Rightarrow>
          Option.bind (READVAR bytes st) (\<lambda>s1.
          Option.bind (READINDEX bytes s1) (\<lambda>(A, s2).
            if A < 0 \<or> A \<ge> int (length (keyTable prg)) then None else READCNT bytes s2))
      | OPPC_RETURNTAIL \<Rightarrow>
          Option.bind (READLOC bytes 2 st) (\<lambda>s1.
          Option.bind (READCNT bytes s1) (\<lambda>s2.
            if v_jumploc s2 < length bytes - 1 then
              (if bytes ! v_jumploc s2 \<noteq> OP_CMDHEAD \<or>
                  int (unat (bytes ! (v_jumploc s2 + 1))) \<noteq> v_level s2
               then None else Some s2)
            else Some s2))
      | OPPC_VVVV \<Rightarrow>
          Option.bind (READVAR bytes st) (\<lambda>s1. Option.bind (READVAR bytes s1) (\<lambda>s2.
          Option.bind (READVAR bytes s2) (READVAR bytes)))
      | OPPC_VVV \<Rightarrow>
          Option.bind (READVAR bytes st) (\<lambda>s1. Option.bind (READVAR bytes s1) (READVAR bytes))
      | OPPC_VV \<Rightarrow> Option.bind (READVAR bytes st) (READVAR bytes)
      | OPPC_V \<Rightarrow> READVAR bytes st
      | OPPC_EMPTY \<Rightarrow> Some st
      | OPPC_VA \<Rightarrow> Option.bind (READVAR bytes st) (READCNT bytes)
      | OPPC_VN \<Rightarrow> Option.bind (READVAR bytes st) (READDATA bytes 1)
      | OPPC_VNN \<Rightarrow> Option.bind (READVAR bytes st) (READDATA bytes 2)
      | OPPC_VNNNN \<Rightarrow> Option.bind (READVAR bytes st) (READDATA bytes 4)
      | OPPC_VNNNNNNNN \<Rightarrow> Option.bind (READVAR bytes st) (READDATA bytes 8))"

text \<open>One round of the \<open>while (pc < ops->size)\<close> loop.\<close>

definition validate_op :: "program_st \<Rightarrow> vstate \<Rightarrow> vstate option" where
  "validate_op prg st =
     (let opc = op_paramcat (ops prg ! v_pc st);
          s1 = st\<lparr>op_actual := (op_actual st)[v_pc st := 1], v_pc := v_pc st + 1\<rparr>
      in map_option (\<lambda>s. s\<lparr>v_wasjump := (opc = OPPC_JUMP)\<rparr>) (validate_case prg opc s1))"

lemma READVAR_pc: "READVAR bytes st = Some s \<Longrightarrow> v_pc st \<le> v_pc s"
  by (auto simp: READVAR_def split: if_splits)

lemma READLOC_pc: "READLOC bytes L st = Some s \<Longrightarrow> v_pc st \<le> v_pc s"
  by (auto simp: READLOC_def Let_def split: if_splits)

lemma READDATA_pc: "READDATA bytes S st = Some s \<Longrightarrow> v_pc st \<le> v_pc s"
  by (auto simp: READDATA_def split: if_splits)

lemma READVARS_pc: "READVARS bytes n st = Some s \<Longrightarrow> v_pc st \<le> v_pc s"
proof (induction n arbitrary: st)
  case 0
  then show ?case by simp
next
  case (Suc n)
  then show ?case
    by (auto split: option.splits dest!: READVAR_pc) fastforce
qed

lemma READCNT_pc: "READCNT bytes st = Some s \<Longrightarrow> v_pc st \<le> v_pc s"
  by (auto simp: READCNT_def split: if_splits dest!: READVARS_pc)

lemma READINDEX_pc: "READINDEX bytes st = Some (A, s) \<Longrightarrow> v_pc st \<le> v_pc s"
  by (auto simp: READINDEX_def split: if_splits)

lemma validate_case_pc: "validate_case prg opc st = Some s \<Longrightarrow> v_pc st \<le> v_pc s"
  unfolding validate_case_def Let_def
  by (cases opc)
     (auto split: if_splits prod.splits simp: bind_eq_Some_conv
           dest!: READVAR_pc READLOC_pc READDATA_pc READCNT_pc READINDEX_pc)

lemma validate_op_pc: "validate_op prg st = Some s \<Longrightarrow> v_pc st < v_pc s"
  by (auto simp: validate_op_def Let_def dest!: validate_case_pc)

function validate_loop :: "program_st \<Rightarrow> vstate \<Rightarrow> vstate option" where
  "validate_loop prg st =
     (if v_pc st < length (ops prg) then
        (case validate_op prg st of None \<Rightarrow> None | Some s \<Rightarrow> validate_loop prg s)
      else Some st)"
  by pat_completeness auto
termination
  by (relation "measure (\<lambda>(prg, st). length (ops prg) - v_pc st)")
     (auto dest!: validate_op_pc)

declare validate_loop.simps [simp del]

definition program_validate :: "program_st \<Rightarrow> bool" where
  "program_validate prg =
     (case validate_loop prg
             \<lparr>v_pc = 0, v_level = 0, v_wasjump = False, v_jumploc = 0,
              v_jumplocs = replicate 256 0,
              op_actual = replicate (length (ops prg)) 0,
              op_need = replicate (length (ops prg)) 0\<rparr> of
        None \<Rightarrow> False
      | Some st \<Rightarrow> list_all2 (\<lambda>need actual. need = 0 \<or> need = actual) (op_need st) (op_actual st))"

text \<open>
  The virtual machine reads the opcode buffer without a check: \<open>ops->bytes[i]\<close> is
  defined for \<open>0 \<le> i < ops->size\<close> only.
\<close>

definition ops_byte :: "8 word list \<Rightarrow> int \<Rightarrow> fault + 8 word" where
  "ops_byte bytes i =
     (if 0 \<le> i \<and> i < int (length bytes) then Inr (bytes ! nat i) else Inl (Read_outside i))"

fun ops_bytes :: "8 word list \<Rightarrow> int \<Rightarrow> nat \<Rightarrow> fault + 8 word list" where
  "ops_bytes bytes i 0 = Inr []"
| "ops_bytes bytes i (Suc n) =
     (case ops_byte bytes i of
        Inl f \<Rightarrow> Inl f
      | Inr b \<Rightarrow> (case ops_bytes bytes (i + 1) n of Inl f \<Rightarrow> Inl f | Inr bs \<Rightarrow> Inr (b # bs)))"

text \<open>
  \<open>case OP_CALL\<close> of \<open>context_run_w\<close>, from \<open>LOAD_abcdefg\<close> to the \<open>LOAD_abc\<close> that
  fetches the head of the command at the call target: the seven operand bytes, the test
  for the REPL placeholder \<open>-1\<close>, the operand bytes of the arguments, the call record
  pushed with the return address, and the three bytes read at the target. What the case
  does afterwards with the registers is not part of this function.
\<close>

record call_entry =
  ce_return_pc :: int
  ce_target :: "8 word \<times> 8 word"
  ce_args :: "8 word list"
  ce_head :: "8 word list"

definition op_call_fetch :: "8 word list \<Rightarrow> int \<Rightarrow> fault + (sink_run + call_entry)" where
  "op_call_fetch bytes pc0 =
     (case ops_bytes bytes (pc0 + 1) 7 of
        Inl f \<Rightarrow> Inl f
      | Inr opnd \<Rightarrow>
          let C = le32s (opnd ! 2) (opnd ! 3) (opnd ! 4) (opnd ! 5);
              G = unat (opnd ! 6)
          in if C = - 1 then Inr (Inl SINK_RUN_REPLMORE)
             else
               (case ops_bytes bytes (pc0 + 8) (2 * G) of
                  Inl f \<Rightarrow> Inl f
                | Inr args \<Rightarrow>
                    (case ops_bytes bytes C 3 of
                       Inl f \<Rightarrow> Inl f
                     | Inr hd3 \<Rightarrow>
                         Inr (Inr \<lparr>ce_return_pc = pc0 + 8 + 2 * int G,
                                   ce_target = (opnd ! 0, opnd ! 1),
                                   ce_args = args, ce_head = hd3\<rparr>))))"

section \<open>Validation and the call opcode\<close>

lemma ops_bytes_numeral:
  "ops_bytes bytes i (numeral k) =
     (case ops_byte bytes i of
        Inl f \<Rightarrow> Inl f
      | Inr b \<Rightarrow> (case ops_bytes bytes (i + 1) (pred_numeral k) of
                     Inl f \<Rightarrow> Inl f | Inr bs \<Rightarrow> Inr (b # bs)))"
  by (simp add: numeral_eq_Suc)

text \<open>
  C1 at a program of one instruction: \<open>OP_CALL\<close> with target register \<open>(0, 0)\<close>, the
  call target \<open>0x7FFFFFF0\<close> and no arguments. \<open>READLOC\<close> records a required alignment
  only for a target inside the buffer, so the validator accepts the program. Run from
  \<open>pc = 0\<close>, the call opcode then fetches the head of the command at the target: a read
  of the opcode buffer at index \<open>0x7FFFFFF0\<close>, far outside its eight bytes.
\<close>

theorem call_target_outside_validated:
  "program_validate \<lparr>ops = [0x21, 0x00, 0x00, 0xF0, 0xFF, 0xFF, 0x7F, 0x00], strTable = [],
                      keyTable = [], repl = False\<rparr> \<and>
   [0x21, 0x00, 0x00, 0xF0, 0xFF, 0xFF, 0x7F, 0x00] ! 0 = OP_CALL \<and>
   op_call_fetch [0x21, 0x00, 0x00, 0xF0, 0xFF, 0xFF, 0x7F, 0x00] 0 = Inl (Read_outside 0x7FFFFFF0)"
proof -
  let ?bytes = "[0x21, 0x00, 0x00, 0xF0, 0xFF, 0xFF, 0x7F, 0x00] :: 8 word list"
  let ?prg = "\<lparr>ops = ?bytes, strTable = [], keyTable = [], repl = False\<rparr>"
  let ?st0 = "\<lparr>v_pc = 0, v_level = 0, v_wasjump = False, v_jumploc = 0,
              v_jumplocs = replicate 256 0,
              op_actual = replicate (length (ops ?prg)) 0,
              op_need = replicate (length (ops ?prg)) 0\<rparr>"
  let ?st1 = "\<lparr>v_pc = 8, v_level = 0, v_wasjump = False, v_jumploc = 0x7FFFFFF0,
              v_jumplocs = replicate 256 0,
              op_actual = [1, 0, 0, 0, 0, 0, 0, 0],
              op_need = [0, 0, 0, 0, 0, 0, 0, 0]\<rparr>"
  have cat: "op_paramcat 0x21 = OPPC_CALL"
    by (simp add: op_paramcat_def op_paramcat_table_def)
  have op: "validate_op ?prg ?st0 = Some ?st1"
    by (simp add: validate_op_def validate_case_def cat READVAR_def READLOC_def READCNT_def
        le32_def Let_def)
  have fin: "validate_loop ?prg ?st1 = Some ?st1"
    by (subst validate_loop.simps) simp
  have "validate_loop ?prg ?st0 = Some ?st1"
    by (subst validate_loop.simps) (simp add: op [simplified] fin [simplified])
  then have v: "program_validate ?prg"
    by (simp add: program_validate_def)
  have f: "op_call_fetch ?bytes 0 = Inl (Read_outside 0x7FFFFFF0)"
    by (simp add: op_call_fetch_def ops_bytes_numeral ops_byte_def le32s_def le32_def Let_def)
  show ?thesis using v f by (simp add: OP_CALL_def)
qed

section \<open>The tick budget\<close>

lemma context_gc_fields:
  "timeout (context_gc sweep c) = timeout c"
  "pc (context_gc sweep c) = pc c"
  "passed (context_gc sweep c) = passed c"
  "failed (context_gc sweep c) = failed c"
  "async (context_gc sweep c) = async c"
  by (simp_all add: context_gc_def context_gcleft_def Let_def split: prod.splits)

lemma context_gc_timeout_left:
  "timeout_left (context_gc sweep c) =
     (if timeout_left c \<le> SINK_GC_TICKS then 0 else timeout_left c - SINK_GC_TICKS)"
  by (simp add: context_gc_def context_gcleft_def Let_def split: prod.splits)

lemma gc_countdown_fields:
  "timeout (gc_countdown sweep c) = timeout c"
  "pc (gc_countdown sweep c) = pc c"
  "passed (gc_countdown sweep c) = passed c"
  "failed (gc_countdown sweep c) = failed c"
  "async (gc_countdown sweep c) = async c"
  by (simp_all add: gc_countdown_def context_gc_fields Let_def)

lemma tick_configured:
  assumes "0 < timeout x"
  shows "tick x = (if timeout_left x \<le> 1 then (Some SINK_RUN_TIMEOUT, x\<lparr>timeout_left := timeout x\<rparr>)
                   else (None, x\<lparr>timeout_left := timeout_left x - 1\<rparr>))"
  using assms by (simp add: tick_def Let_def)

lemma RUNDONE_timeout: "RUNDONE unwind prg SINK_RUN_TIMEOUT x = (Some SINK_RUN_TIMEOUT, x)"
  by (simp add: RUNDONE_def)

lemma gc_countdown_cases:
  "gc_countdown sweep x =
     (if gc_level x \<noteq> SINK_GC_NONE \<and> gc_left x \<le> 1
        then context_gc sweep (x\<lparr>gc_left := gc_left x - 1\<rparr>)
      else if gc_level x = SINK_GC_NONE then x
      else x\<lparr>gc_left := gc_left x - 1\<rparr>)"
  by (simp add: gc_countdown_def Let_def)

lemma gc_countdown_budget:
  "timeout_left (gc_countdown sweep x) =
     (if gc_level x \<noteq> SINK_GC_NONE \<and> gc_left x \<le> 1 then max 0 (timeout_left x - 100)
      else timeout_left x)"
  by (simp add: gc_countdown_cases context_gc_timeout_left SINK_GC_TICKS_def max_def)

text \<open>
  C2. Let a run start at an opcode whose case body completes (\<open>exec c = (Next, c1)\<close>)
  with a timeout configured; \<open>c1\<close> is the context as the case body left it. The
  collector's countdown that follows the opcode runs a collection exactly when a collector
  is configured and its counter is at most one (\<open>collect\<close>); \<open>c2\<close> is the context after the
  countdown and \<open>b\<close> its budget. Then:

  \<^item> a collection (\<open>context_gc\<close>, also the one of the opcode \<open>OP_GC_RUN\<close>) leaves the budget
    less 100, floored at zero;
  \<^item> the countdown leaves the budget of \<open>c1\<close> as it is when no collection runs and deducts
    the 100 ticks of the collection, floored at zero, when one runs;
  \<^item> if \<open>b\<close> is above one, the run goes on from \<open>c2\<close> with the budget \<open>b - 1\<close>: the opcode
    has cost one tick;
  \<^item> otherwise the run returns the TIMEOUT status, with the budget reset to the configured
    timeout and \<open>pc\<close> as the opcode left it, and the next run enters the loop at that
    \<open>pc\<close>.
\<close>

theorem tick_budget_timeout_resume:
  assumes "\<not> passed c" and "\<not> failed c" and "\<not> async c"
    and "timeout c \<le> 0 \<or> 0 < timeout_left c"
    and "pc c < int (length (ops prg))"
    and "exec c = (Next, c1)"
    and "0 < timeout c1"
    and "\<not> passed c1" and "\<not> failed c1" and "\<not> async c1"
  shows "let collect = (gc_level c1 \<noteq> SINK_GC_NONE \<and> gc_left c1 \<le> 1);
             c2 = (if collect then context_gc sweep (c1\<lparr>gc_left := gc_left c1 - 1\<rparr>)
                   else if gc_level c1 = SINK_GC_NONE then c1
                   else c1\<lparr>gc_left := gc_left c1 - 1\<rparr>);
             b = (if collect then max 0 (timeout_left c1 - 100) else timeout_left c1);
             r = c2\<lparr>timeout_left := timeout c1\<rparr>
         in timeout_left (context_gc sweep c1) = max 0 (timeout_left c1 - 100) \<and>
            timeout_left c2 = b \<and>
            (1 < b \<longrightarrow>
               context_run_w prg exec sweep unwind c =
                 run_loop prg exec sweep unwind (c2\<lparr>timeout_left := b - 1\<rparr>)) \<and>
            (b \<le> 1 \<longrightarrow>
               context_run_w prg exec sweep unwind c = Some (Some SINK_RUN_TIMEOUT, r) \<and>
               pc r = pc c1 \<and> timeout r = timeout c1 \<and> timeout_left r = timeout r \<and>
               context_run_w prg exec sweep unwind r = run_loop prg exec sweep unwind r)"
proof -
  define collect where "collect = (gc_level c1 \<noteq> SINK_GC_NONE \<and> gc_left c1 \<le> 1)"
  define c2 where "c2 = (if collect then context_gc sweep (c1\<lparr>gc_left := gc_left c1 - 1\<rparr>)
                   else if gc_level c1 = SINK_GC_NONE then c1
                   else c1\<lparr>gc_left := gc_left c1 - 1\<rparr>)"
  define b where "b = (if collect then max 0 (timeout_left c1 - 100) else timeout_left c1)"
  define r where "r = c2\<lparr>timeout_left := timeout c1\<rparr>"
  have cd: "gc_countdown sweep c1 = c2"
    unfolding c2_def collect_def by (rule gc_countdown_cases)
  have bud: "timeout_left c2 = b"
    unfolding cd [symmetric] b_def collect_def by (rule gc_countdown_budget)
  have T2: "0 < timeout c2" "timeout c2 = timeout c1" "pc c2 = pc c1"
    "\<not> passed c2" "\<not> failed c2" "\<not> async c2"
    using assms(7-10) unfolding cd [symmetric] by (simp_all add: gc_countdown_fields)
  have enter: "context_run_w prg exec sweep unwind c = run_loop prg exec sweep unwind c"
    using assms(1-4) by (auto simp: context_run_w_def)
  have step: "run_loop prg exec sweep unwind c =
      (case tick c2 of
         (Some res, c3) \<Rightarrow> Some (RUNDONE unwind prg res c3)
       | (None, c3) \<Rightarrow> run_loop prg exec sweep unwind c3)"
    using assms(5,6) cd by (subst run_loop.simps) simp
  have gc: "timeout_left (context_gc sweep c1) = max 0 (timeout_left c1 - 100)"
    by (simp add: context_gc_timeout_left SINK_GC_TICKS_def max_def)
  have more: "1 < b \<longrightarrow>
      context_run_w prg exec sweep unwind c =
        run_loop prg exec sweep unwind (c2\<lparr>timeout_left := b - 1\<rparr>)"
    unfolding enter step using T2(1) bud by (simp add: tick_configured)
  have stop: "b \<le> 1 \<longrightarrow>
      context_run_w prg exec sweep unwind c = Some (Some SINK_RUN_TIMEOUT, r)"
    unfolding enter step using T2(1,2) bud by (simp add: tick_configured RUNDONE_timeout r_def)
  have r: "pc r = pc c1" "timeout r = timeout c1" "timeout_left r = timeout r"
    "context_run_w prg exec sweep unwind r = run_loop prg exec sweep unwind r"
    using T2 assms(7) by (simp_all add: context_run_w_def r_def)
  from gc bud more stop r show ?thesis
    unfolding Let_def collect_def [symmetric] c2_def [symmetric] b_def [symmetric] r_def [symmetric]
    by blast
qed

text \<open>
  A program of three \<open>OP_NOP\<close> bytes under a timeout of 500 with 101 ticks left, the
  default collector enabled and its counter at one: the run executes one opcode, the
  countdown runs a collection, which costs 100 ticks, the opcode's own tick brings the
  budget to zero, and the run times out at \<open>pc = 1\<close> with the budget back at 500 (and the
  collector's counter back at 10000).
\<close>

theorem tick_budget_timeout_resume_witness:
  "context_run_w \<lparr>ops = [0, 0, 0], strTable = [], keyTable = [], repl = False\<rparr>
     (\<lambda>x. (Next, x\<lparr>pc := pc x + 1\<rparr>)) (\<lambda>x. (str_tbl x, list_tbl x, ())) (\<lambda>x. x)
     \<lparr>str_tbl = [], list_tbl = [], pc = 0, timeout = 500, timeout_left = 101,
      gc_level = SINK_GC_DEFAULT, gc_left = 1, passed = False, failed = False, async = False,
      err = None\<rparr> =
   Some (Some SINK_RUN_TIMEOUT,
     \<lparr>str_tbl = [], list_tbl = [], pc = 1, timeout = 500, timeout_left = 500,
      gc_level = SINK_GC_DEFAULT, gc_left = 10000, passed = False, failed = False, async = False,
      err = None\<rparr>)"
proof -
  let ?prg = "\<lparr>ops = [0, 0, 0], strTable = [], keyTable = [], repl = False\<rparr>"
  let ?exec = "\<lambda>x :: context_st. (Next, x\<lparr>pc := pc x + 1\<rparr>)"
  let ?sweep = "\<lambda>x :: context_st. (str_tbl x, list_tbl x, ())"
  let ?c = "\<lparr>str_tbl = [], list_tbl = [], pc = 0, timeout = 500, timeout_left = 101,
      gc_level = SINK_GC_DEFAULT, gc_left = 1, passed = False, failed = False, async = False,
      err = None\<rparr>"
  let ?c1 = "?c\<lparr>pc := pc ?c + 1\<rparr>"
  have gc: "context_gc ?sweep
      \<lparr>str_tbl = [], list_tbl = [], pc = 1, timeout = 500, timeout_left = 101,
       gc_level = SINK_GC_DEFAULT, gc_left = 0, passed = False, failed = False, async = False,
       err = None\<rparr> =
      \<lparr>str_tbl = [], list_tbl = [], pc = 1, timeout = 500, timeout_left = 1,
       gc_level = SINK_GC_DEFAULT, gc_left = 10000, passed = False, failed = False, async = False,
       err = None\<rparr>"
    by (simp add: context_gc_def context_gcleft_def SINK_GC_TICKS_def)
  show ?thesis
    using tick_budget_timeout_resume [where c = ?c and prg = ?prg and exec = ?exec
        and ?c1.0 = ?c1 and sweep = ?sweep and unwind = "\<lambda>x. x"]
    by (simp add: Let_def gc)
qed

section \<open>JSON pickling and reference cycles\<close>

lemma typeof_list_iff: "sink_typeof a = SINK_TYPE_LIST \<longleftrightarrow> sink_islist a"
  by (auto simp: sink_typeof_def sink_isnil_def sink_isstr_def sink_islist_def SINK_NIL_def
      SINK_TAG_MASK_def SINK_TAG_LIST_def SINK_TAG_STR_def)

lemma typeof_str_iff: "sink_typeof a = SINK_TYPE_STR \<longleftrightarrow> sink_isstr a"
  by (auto simp: sink_typeof_def sink_isnil_def sink_isstr_def sink_islist_def SINK_NIL_def
      SINK_TAG_MASK_def SINK_TAG_LIST_def SINK_TAG_STR_def)

lemma pk_tojson_nil:
  "sink_typeof a = SINK_TYPE_NIL \<Longrightarrow> pk_tojson fmt ctx a li = Inr (Some ''null'')"
  by (subst pk_tojson.simps) simp

lemma pk_tojson_num:
  "sink_typeof a = SINK_TYPE_NUM \<Longrightarrow>
     pk_tojson fmt ctx a li =
       (if pk_isjson (numtostr fmt a) then Inr (Some (numtostr fmt a)) else Inr (Some ''null''))"
  by (subst pk_tojson.simps) simp

lemma pk_tojson_str:
  "sink_typeof a = SINK_TYPE_STR \<Longrightarrow> var_index a < length (str_tbl ctx) \<Longrightarrow>
     pk_tojson fmt ctx a li =
       Inr (Some ([CHR 0x22] @ concat (map pk_tojson_byte (str_tbl ctx ! var_index a)) @ [CHR 0x22]))"
  by (subst pk_tojson.simps) simp

lemma pk_tojson_list_hit:
  "sink_typeof a = SINK_TYPE_LIST \<Longrightarrow> var_index a \<in> set li \<Longrightarrow> pk_tojson fmt ctx a li = Inr None"
  by (subst pk_tojson.simps) simp

lemma pk_tojson_list_none:
  "sink_typeof a = SINK_TYPE_LIST \<Longrightarrow> var_index a \<notin> set li \<Longrightarrow>
   var_index a < length (list_tbl ctx) \<Longrightarrow>
   pk_tojson_vals fmt ctx (vals (list_tbl ctx ! var_index a)) (var_index a # li) [] = Inr None \<Longrightarrow>
   pk_tojson fmt ctx a li = Inr None"
  by (subst pk_tojson.simps) simp

lemma pk_tojson_list_some:
  "sink_typeof a = SINK_TYPE_LIST \<Longrightarrow> var_index a \<notin> set li \<Longrightarrow>
   var_index a < length (list_tbl ctx) \<Longrightarrow>
   pk_tojson_vals fmt ctx (vals (list_tbl ctx ! var_index a)) (var_index a # li) [] = Inr (Some strs) \<Longrightarrow>
   \<exists>s. pk_tojson fmt ctx a li = Inr (Some s)"
  by (subst pk_tojson.simps) simp

lemma on_stack_islist: "on_stack ctx li a \<Longrightarrow> sink_islist a"
  by (induction rule: on_stack.induct) auto

lemma on_stack_not_down:
  assumes "sink_islist a" and "var_index a \<notin> set li"
    and "\<not> (\<exists>v \<in> set (vals (list_tbl ctx ! var_index a)). on_stack ctx (var_index a # li) v)"
  shows "\<not> on_stack ctx li a"
proof
  assume "on_stack ctx li a"
  then show False using assms by (cases rule: on_stack.cases) auto
qed

lemma pk_tojson_on_stack:
  "pools_valid ctx \<longrightarrow> valid_val ctx a \<longrightarrow>
     (\<exists>r. pk_tojson fmt ctx a li = Inr r \<and> (r = None \<longleftrightarrow> on_stack ctx li a))"
  and pk_tojson_vals_on_stack:
  "pools_valid ctx \<longrightarrow> (\<forall>v \<in> set vs. valid_val ctx v) \<longrightarrow>
     (\<exists>r. pk_tojson_vals fmt ctx vs li strs = Inr r \<and> (r = None \<longleftrightarrow> (\<exists>v \<in> set vs. on_stack ctx li v)))"
proof (induction fmt ctx a li and fmt ctx vs li strs rule: pk_tojson_pk_tojson_vals.induct)
  case (1 fmt ctx a li)
  show ?case
  proof (intro impI)
    assume pv: "pools_valid ctx" and va: "valid_val ctx a"
    show "\<exists>r. pk_tojson fmt ctx a li = Inr r \<and> (r = None \<longleftrightarrow> on_stack ctx li a)"
    proof (cases "sink_typeof a")
      case SINK_TYPE_NIL
      then have "\<not> sink_islist a" using typeof_list_iff [of a] by simp
      then have "\<not> on_stack ctx li a" using on_stack_islist by blast
      then show ?thesis by (simp add: pk_tojson_nil [OF SINK_TYPE_NIL])
    next
      case SINK_TYPE_NUM
      then have "\<not> sink_islist a" using typeof_list_iff [of a] by simp
      then have "\<not> on_stack ctx li a" using on_stack_islist by blast
      then show ?thesis by (simp add: pk_tojson_num [OF SINK_TYPE_NUM])
    next
      case SINK_TYPE_STR
      then have "\<not> sink_islist a" using typeof_list_iff [of a] by simp
      then have n: "\<not> on_stack ctx li a" using on_stack_islist by blast
      have "var_index a < length (str_tbl ctx)"
        using SINK_TYPE_STR va typeof_str_iff [of a] by (simp add: valid_val_def)
      then show ?thesis using n by (simp add: pk_tojson_str [OF SINK_TYPE_STR])
    next
      case SINK_TYPE_LIST
      then have il: "sink_islist a" using typeof_list_iff [of a] by simp
      show ?thesis
      proof (cases "var_index a \<in> set li")
        case True
        then have "on_stack ctx li a" using il by (rule on_stack.hit [rotated])
        then show ?thesis by (simp add: pk_tojson_list_hit [OF SINK_TYPE_LIST True])
      next
        case False
        have inb: "var_index a < length (list_tbl ctx)"
          using il va by (simp add: valid_val_def)
        let ?vs = "vals (list_tbl ctx ! var_index a)"
        have vv: "\<forall>v \<in> set ?vs. valid_val ctx v"
          using pv inb by (auto simp: pools_valid_def)
        have nn: "\<not> \<not> var_index a < length (list_tbl ctx)" using inb by simp
        have vv': "\<And>x. x \<in> set ?vs \<Longrightarrow> valid_val ctx x" using vv by blast
        note ih = "1.IH" [OF SINK_TYPE_LIST False nn, rule_format, OF pv vv']
        then obtain r where r: "pk_tojson_vals fmt ctx ?vs (var_index a # li) [] = Inr r"
          "r = None \<longleftrightarrow> (\<exists>v \<in> set ?vs. on_stack ctx (var_index a # li) v)"
          by blast
        show ?thesis
        proof (cases r)
          case None
          with r(2) obtain v where v: "v \<in> set ?vs" "on_stack ctx (var_index a # li) v" by blast
          have "on_stack ctx li a" by (rule on_stack.down [OF il False inb v])
          then show ?thesis
            using pk_tojson_list_none [OF SINK_TYPE_LIST False inb r(1) [unfolded None]] by simp
        next
          case (Some strs)
          with r(2) have "\<not> (\<exists>v \<in> set ?vs. on_stack ctx (var_index a # li) v)" by simp
          then have "\<not> on_stack ctx li a" by (rule on_stack_not_down [OF il False])
          then show ?thesis
            using pk_tojson_list_some [OF SINK_TYPE_LIST False inb r(1) [unfolded Some]] by auto
        qed
      qed
    qed
  qed
next
  case (2 fmt ctx li strs)
  show ?case by simp
next
  case (3 fmt ctx v vs li strs)
  show ?case
  proof (intro impI)
    assume pv: "pools_valid ctx" and va: "\<forall>x \<in> set (v # vs). valid_val ctx x"
    from "3.IH"(1) pv va obtain r1 where r1: "pk_tojson fmt ctx v li = Inr r1"
      "r1 = None \<longleftrightarrow> on_stack ctx li v" by auto
    show "\<exists>r. pk_tojson_vals fmt ctx (v # vs) li strs = Inr r \<and>
            (r = None \<longleftrightarrow> (\<exists>x \<in> set (v # vs). on_stack ctx li x))"
    proof (cases r1)
      case None
      then show ?thesis using r1 by simp
    next
      case (Some s2)
      from "3.IH"(2) [OF r1(1) [unfolded Some] refl] pv va
      obtain r where "pk_tojson_vals fmt ctx vs li (strs @ [s2]) = Inr r"
        "r = None \<longleftrightarrow> (\<exists>x \<in> set vs. on_stack ctx li x)" by auto
      then show ?thesis using r1 Some by simp
    qed
  qed
qed

lemma list_edgesI:
  "i < length (list_tbl ctx) \<Longrightarrow> v \<in> set (vals (list_tbl ctx ! i)) \<Longrightarrow> sink_islist v \<Longrightarrow>
   (i, var_index v) \<in> list_edges ctx"
  by (auto simp: list_edges_def)

lemma list_edgesE:
  assumes "(i, m) \<in> list_edges ctx"
  obtains v where "i < length (list_tbl ctx)" and "v \<in> set (vals (list_tbl ctx ! i))"
    and "sink_islist v" and "var_index v = m"
  using assms by (auto simp: list_edges_def)

lemma on_stack_reaches:
  "on_stack ctx li a \<Longrightarrow>
     (\<exists>k \<in> set li. (var_index a, k) \<in> (list_edges ctx)\<^sup>*) \<or>
     (\<exists>j. (var_index a, j) \<in> (list_edges ctx)\<^sup>* \<and> (j, j) \<in> (list_edges ctx)\<^sup>+)"
proof (induction rule: on_stack.induct)
  case (hit a li)
  then show ?case by blast
next
  case (down a li v)
  have e: "(var_index a, var_index v) \<in> list_edges ctx"
    using down.hyps(3,4) on_stack_islist [OF down.hyps(5)] by (rule list_edgesI)
  from down.IH show ?case
  proof
    assume "\<exists>k \<in> set (var_index a # li). (var_index v, k) \<in> (list_edges ctx)\<^sup>*"
    then obtain k where k: "k \<in> set (var_index a # li)" "(var_index v, k) \<in> (list_edges ctx)\<^sup>*"
      by blast
    show ?thesis
    proof (cases "k = var_index a")
      case True
      with e k(2) have "(var_index a, var_index a) \<in> (list_edges ctx)\<^sup>+"
        by (simp add: rtrancl_into_trancl2)
      then show ?thesis by blast
    next
      case False
      with k(1) have "k \<in> set li" by simp
      moreover have "(var_index a, k) \<in> (list_edges ctx)\<^sup>*"
        using e k(2) by (rule converse_rtrancl_into_rtrancl)
      ultimately show ?thesis by blast
    qed
  next
    assume "\<exists>j. (var_index v, j) \<in> (list_edges ctx)\<^sup>* \<and> (j, j) \<in> (list_edges ctx)\<^sup>+"
    then obtain j where j: "(var_index v, j) \<in> (list_edges ctx)\<^sup>*" "(j, j) \<in> (list_edges ctx)\<^sup>+"
      by blast
    have "(var_index a, j) \<in> (list_edges ctx)\<^sup>*"
      using e j(1) by (rule converse_rtrancl_into_rtrancl)
    with j(2) show ?thesis by blast
  qed
qed

lemma step_on_stack:
  assumes pv: "pools_valid ctx" and il: "sink_islist a" and nin: "var_index a \<notin> set li"
    and e: "(var_index a, m) \<in> list_edges ctx"
    and ih: "\<And>v. sink_islist v \<Longrightarrow> var_index v < length (list_tbl ctx) \<Longrightarrow> var_index v = m \<Longrightarrow>
               on_stack ctx (var_index a # li) v"
  shows "on_stack ctx li a"
proof -
  from e obtain v where v: "var_index a < length (list_tbl ctx)"
    "v \<in> set (vals (list_tbl ctx ! var_index a))" "sink_islist v" "var_index v = m"
    by (rule list_edgesE)
  have "valid_val ctx v" using pv v(1,2) by (auto simp: pools_valid_def)
  then have "var_index v < length (list_tbl ctx)" using v(3) by (simp add: valid_val_def)
  then have "on_stack ctx (var_index a # li) v" using v(3,4) by (intro ih)
  then show ?thesis by (rule on_stack.down [OF il nin v(1,2)])
qed

lemma reaches_on_stack:
  assumes pv: "pools_valid ctx"
  shows "sink_islist a \<Longrightarrow> var_index a < length (list_tbl ctx) \<Longrightarrow>
     (\<exists>k \<in> set li. (var_index a, k) \<in> (list_edges ctx)\<^sup>*) \<or>
     (\<exists>j. (var_index a, j) \<in> (list_edges ctx)\<^sup>* \<and> (j, j) \<in> (list_edges ctx)\<^sup>+) \<Longrightarrow>
     on_stack ctx li a"
proof (induction "card ({..<length (list_tbl ctx)} - set li)" arbitrary: a li rule: less_induct)
  case less
  let ?E = "list_edges ctx"
  let ?i = "var_index a"
  show ?case
  proof (cases "?i \<in> set li")
    case True
    then show ?thesis using less.prems(1) by (intro on_stack.hit)
  next
    case False
    have "{..<length (list_tbl ctx)} - set (?i # li) \<subset> {..<length (list_tbl ctx)} - set li"
      using False less.prems(2) by auto
    then have smaller: "card ({..<length (list_tbl ctx)} - set (?i # li)) < card ({..<length (list_tbl ctx)} - set li)"
      by (intro psubset_card_mono) auto
    note ih = less.hyps [OF smaller]
    from less.prems(3) show ?thesis
    proof
      assume "\<exists>k \<in> set li. (?i, k) \<in> ?E\<^sup>*"
      then obtain k where k: "k \<in> set li" "(?i, k) \<in> ?E\<^sup>*" by blast
      with False have "?i \<noteq> k" by auto
      with k(2) obtain m where m: "(?i, m) \<in> ?E" "(m, k) \<in> ?E\<^sup>*"
        by (meson converse_rtranclE)
      show ?thesis
      proof (rule step_on_stack [OF pv less.prems(1) False m(1)])
        fix v assume "sink_islist v" "var_index v < length (list_tbl ctx)" "var_index v = m"
        then show "on_stack ctx (?i # li) v"
          using k(1) m(2) by (intro ih) auto
      qed
    next
      assume "\<exists>j. (?i, j) \<in> ?E\<^sup>* \<and> (j, j) \<in> ?E\<^sup>+"
      then obtain j where j: "(?i, j) \<in> ?E\<^sup>*" "(j, j) \<in> ?E\<^sup>+" by blast
      show ?thesis
      proof (cases "?i = j")
        case True
        with j(2) obtain m where m: "(?i, m) \<in> ?E" "(m, ?i) \<in> ?E\<^sup>*"
          by (meson tranclD)
        show ?thesis
        proof (rule step_on_stack [OF pv less.prems(1) False m(1)])
          fix v assume "sink_islist v" "var_index v < length (list_tbl ctx)" "var_index v = m"
          then show "on_stack ctx (?i # li) v"
            using m(2) by (intro ih) auto
        qed
      next
        case F: False
        with j(1) obtain m where m: "(?i, m) \<in> ?E" "(m, j) \<in> ?E\<^sup>*"
          by (meson converse_rtranclE)
        show ?thesis
        proof (rule step_on_stack [OF pv less.prems(1) False m(1)])
          fix v assume "sink_islist v" "var_index v < length (list_tbl ctx)" "var_index v = m"
          then show "on_stack ctx (?i # li) v"
            using m(2) j(2) by (intro ih) auto
        qed
      qed
    qed
  qed
qed

lemma on_stack_iff_cycle:
  assumes "pools_valid ctx" and "valid_val ctx a"
  shows "on_stack ctx [] a \<longleftrightarrow> has_cycle ctx a"
proof
  assume o: "on_stack ctx [] a"
  from on_stack_reaches [OF o] on_stack_islist [OF o] show "has_cycle ctx a"
    by (simp add: has_cycle_def)
next
  assume h: "has_cycle ctx a"
  then have il: "sink_islist a" by (simp add: has_cycle_def)
  then have inb: "var_index a < length (list_tbl ctx)" using assms(2) by (simp add: valid_val_def)
  show "on_stack ctx [] a"
    using h by (intro reaches_on_stack [OF assms(1) il inb]) (simp add: has_cycle_def)
qed

text \<open>
  C3. In a context whose values refer to slots of their pools and which has not failed
  yet: pickling to JSON a value that contains a reference cycle marks the context failed
  with the message "Cannot pickle circular structure to JSON format" (after \<open>Error:\<close>,
  with the call-stack lines) and returns nil; pickling a value without a reference cycle
  leaves the context as it was and returns a string.
\<close>

theorem pickle_json_cycle:
  assumes "pools_valid ctx" and "valid_val ctx a" and "\<not> failed ctx"
  shows "(has_cycle ctx a \<longrightarrow>
            opi_pickle_json fmt trace ctx a =
              Inr (ctx\<lparr>failed := True,
                        err := Some (''Error: '' @ trace ''Cannot pickle circular structure to JSON format'')\<rparr>,
                   None)) \<and>
         (\<not> has_cycle ctx a \<longrightarrow> (\<exists>s. opi_pickle_json fmt trace ctx a = Inr (ctx, Some s)))"
proof -
  from pk_tojson_on_stack [rule_format, OF assms(1,2), of fmt "[]"]
  obtain r where r: "pk_tojson fmt ctx a [] = Inr r" "r = None \<longleftrightarrow> on_stack ctx [] a"
    by blast
  have c: "r = None \<longleftrightarrow> has_cycle ctx a"
    using r(2) on_stack_iff_cycle [OF assms(1,2)] by simp
  show ?thesis
  proof (cases r)
    case None
    then show ?thesis using r(1) c assms(3) by (simp add: opi_pickle_json_def opi_abortcstr_def)
  next
    case (Some s)
    then show ?thesis using r(1) c by (simp add: opi_pickle_json_def)
  qed
qed

text \<open>
  A list that holds itself fails; nil gives \<open>null\<close>.
\<close>

theorem pickle_json_cycle_witness:
  "opi_pickle_json (\<lambda>u. ''0'') (\<lambda>m. m)
     \<lparr>str_tbl = [], list_tbl = [\<lparr>vals = [0x7FF0000300000000], count = 200\<rparr>], pc = 0, timeout = 0,
      timeout_left = 0, gc_level = SINK_GC_DEFAULT, gc_left = 0, passed = False, failed = False,
      async = False, err = None\<rparr> 0x7FF0000300000000 =
   Inr (\<lparr>str_tbl = [], list_tbl = [\<lparr>vals = [0x7FF0000300000000], count = 200\<rparr>], pc = 0, timeout = 0,
      timeout_left = 0, gc_level = SINK_GC_DEFAULT, gc_left = 0, passed = False, failed = True,
      async = False, err = Some ''Error: Cannot pickle circular structure to JSON format''\<rparr>, None) \<and>
   (\<exists>s. opi_pickle_json (\<lambda>u. ''0'') (\<lambda>m. m)
     \<lparr>str_tbl = [], list_tbl = [\<lparr>vals = [0x7FF0000300000000], count = 200\<rparr>], pc = 0, timeout = 0,
      timeout_left = 0, gc_level = SINK_GC_DEFAULT, gc_left = 0, passed = False, failed = False,
      async = False, err = None\<rparr> 0x7FF0000100000000 =
   Inr (\<lparr>str_tbl = [], list_tbl = [\<lparr>vals = [0x7FF0000300000000], count = 200\<rparr>], pc = 0, timeout = 0,
      timeout_left = 0, gc_level = SINK_GC_DEFAULT, gc_left = 0, passed = False, failed = False,
      async = False, err = None\<rparr>, Some s))"
proof -
  let ?ctx = "\<lparr>str_tbl = [], list_tbl = [\<lparr>vals = [0x7FF0000300000000], count = 200\<rparr>], pc = 0, timeout = 0,
      timeout_left = 0, gc_level = SINK_GC_DEFAULT, gc_left = 0, passed = False, failed = False,
      async = False, err = None\<rparr>"
  let ?l = "0x7FF0000300000000 :: 64 word"
  let ?n = "0x7FF0000100000000 :: 64 word"
  have il: "sink_islist ?l" and ix: "var_index ?l = 0" and ns: "\<not> sink_isstr ?l"
    by (simp_all add: sink_islist_def sink_isstr_def var_index_def SINK_TAG_MASK_def
        SINK_TAG_LIST_def SINK_TAG_STR_def SINK_INDEX_MASK_def)
  have nl: "\<not> sink_islist ?n" and nns: "\<not> sink_isstr ?n"
    by (simp_all add: sink_islist_def sink_isstr_def SINK_TAG_MASK_def
        SINK_TAG_LIST_def SINK_TAG_STR_def)
  have vl: "valid_val ?ctx ?l" using il ix ns by (simp add: valid_val_def)
  have vn: "valid_val ?ctx ?n" using nl nns by (simp add: valid_val_def)
  have pv: "pools_valid ?ctx" using vl by (simp add: pools_valid_def)
  have nf: "\<not> failed ?ctx" by simp
  have "(0, 0) \<in> list_edges ?ctx" using il ix by (simp add: list_edges_def)
  then have "(0, 0) \<in> (list_edges ?ctx)\<^sup>+" by (rule r_into_trancl)
  then have cyc: "has_cycle ?ctx ?l" using il ix by (auto simp: has_cycle_def)
  have acyc: "\<not> has_cycle ?ctx ?n" using nl by (simp add: has_cycle_def)
  from pickle_json_cycle [OF pv vl nf, of "\<lambda>u. ''0''" "\<lambda>m. m"] cyc
  have A: "opi_pickle_json (\<lambda>u. ''0'') (\<lambda>m. m) ?ctx ?l =
      Inr (?ctx\<lparr>failed := True,
                 err := Some (''Error: '' @ ''Cannot pickle circular structure to JSON format'')\<rparr>, None)"
    by blast
  from pickle_json_cycle [OF pv vn nf, of "\<lambda>u. ''0''" "\<lambda>m. m"] acyc
  have B: "\<exists>s. opi_pickle_json (\<lambda>u. ''0'') (\<lambda>m. m) ?ctx ?n = Inr (?ctx, Some s)"
    by blast
  from A B show ?thesis by simp
qed

section \<open>The order of values\<close>

text \<open>
  C4 at the two zeros. \<open>0x0000000000000000\<close> is the double \<open>0.0\<close> and
  \<open>0x8000000000000000\<close> is \<open>-0.0\<close>: two numbers of equal value. \<open>opi_order\<close> answers 1
  for the pair in either order, so neither comes first and they do not compare equal.
\<close>

theorem opi_order_zeros:
  "opi_order trace ctx 0x0000000000000000 0x8000000000000000 = Inr (1, ctx) \<and>
   opi_order trace ctx 0x8000000000000000 0x0000000000000000 = Inr (1, ctx) \<and>
   \<not> dbl_lt 0x0000000000000000 0x8000000000000000 \<and>
   \<not> dbl_lt 0x8000000000000000 0x0000000000000000"
proof -
  have t: "sink_typeof (0x0000000000000000 :: 64 word) = SINK_TYPE_NUM"
    "sink_typeof (0x8000000000000000 :: 64 word) = SINK_TYPE_NUM"
    by (simp_all add: sink_typeof_def sink_isnil_def sink_isstr_def sink_islist_def SINK_NIL_def
        SINK_TAG_MASK_def SINK_TAG_LIST_def SINK_TAG_STR_def)
  have n: "\<not> sink_num_isnan (0x0000000000000000 :: 64 word)"
    "\<not> sink_num_isnan (0x8000000000000000 :: 64 word)"
    by (simp_all add: sink_num_isnan_def SINK_NAN_MASK_def)
  have l: "\<not> dbl_lt 0x0000000000000000 0x8000000000000000"
    "\<not> dbl_lt 0x8000000000000000 0x0000000000000000"
    by (simp_all add: dbl_lt_def dbl_isnan_def dbl_exp_def dbl_man_def dbl_mag_def dbl_sign_def)
  have "sortboth ctx [] 0x0000000000000000 0x8000000000000000 = Inr (1, False)"
    by (subst sortboth.simps) (simp add: t n l)
  moreover have "sortboth ctx [] 0x8000000000000000 0x0000000000000000 = Inr (1, False)"
    by (subst sortboth.simps) (simp add: t n l)
  ultimately show ?thesis using l by (simp add: opi_order_def)
qed

text \<open>
  The part of the rule that holds as stated: values of different types are ordered
  nil, number, string, list.
\<close>

lemma opi_order_across_types:
  assumes "sink_typeof a \<noteq> sink_typeof b"
  shows "opi_order trace ctx a b =
           Inr (if (case sink_typeof a of SINK_TYPE_NIL \<Rightarrow> 0 | SINK_TYPE_NUM \<Rightarrow> 1
                    | SINK_TYPE_STR \<Rightarrow> 2 | SINK_TYPE_LIST \<Rightarrow> (3::nat))
                   < (case sink_typeof b of SINK_TYPE_NIL \<Rightarrow> 0 | SINK_TYPE_NUM \<Rightarrow> 1
                    | SINK_TYPE_STR \<Rightarrow> 2 | SINK_TYPE_LIST \<Rightarrow> 3)
                then - 1 else 1, ctx)"
proof -
  from assms have ne: "a \<noteq> b" by auto
  have "sortboth ctx [] a b =
          Inr (if (case sink_typeof a of SINK_TYPE_NIL \<Rightarrow> 0 | SINK_TYPE_NUM \<Rightarrow> 1
                    | SINK_TYPE_STR \<Rightarrow> 2 | SINK_TYPE_LIST \<Rightarrow> (3::nat))
                   < (case sink_typeof b of SINK_TYPE_NIL \<Rightarrow> 0 | SINK_TYPE_NUM \<Rightarrow> 1
                    | SINK_TYPE_STR \<Rightarrow> 2 | SINK_TYPE_LIST \<Rightarrow> 3)
                then - 1 else 1, False)"
    using assms ne
    by (subst sortboth.simps) (cases "sink_typeof a"; cases "sink_typeof b"; simp)
  then show ?thesis by (simp add: opi_order_def)
qed

section \<open>The value of a number literal\<close>

subsection \<open>The binary exponent\<close>

lemma ilog2_bounds:
  assumes "0 < x"
  shows "2 powi ilog2 x \<le> x \<and> x < 2 powi (ilog2 x + 1)"
proof (cases "1 \<le> x")
  case True
  define n where "n = \<lfloor>x\<rfloor>"
  define b where "b = bitlen n"
  have n: "1 \<le> n" using True by (simp add: n_def)
  then have bb: "2 ^ nat (b - 1) \<le> n" "n < 2 ^ nat b"
    using bitlen_bounds [of n] by (simp_all add: b_def)
  have b1: "1 \<le> b"
    using n bitlen_eq_zero_iff [of n] bitlen_nonneg [of n] by (simp add: b_def)
  have il: "ilog2 x = b - 1" using True by (simp add: ilog2_def n_def b_def)
  have lo: "(2::real) ^ nat (b - 1) \<le> of_int n"
    using bb(1) by (metis of_int_le_iff of_int_numeral of_int_power)
  have hi: "of_int n + 1 \<le> (2::real) ^ nat b"
  proof -
    have "n + 1 \<le> 2 ^ nat b" using bb(2) by simp
    then have "real_of_int (n + 1) \<le> real_of_int (2 ^ nat b)" by (simp only: of_int_le_iff)
    then show ?thesis by simp
  qed
  have xn: "of_int n \<le> x" "x < of_int n + 1" unfolding n_def by linarith+
  have p1: "(2::real) powi (b - 1) = 2 ^ nat (b - 1)" using b1 by (simp add: power_int_def)
  have p2: "(2::real) powi b = 2 ^ nat b" using b1 by (simp add: power_int_def)
  have "b - 1 + 1 = b" by simp
  then have p3: "(2::real) powi (b - 1 + 1) = 2 ^ nat b" using p2 by simp
  have "2 powi (b - 1) \<le> x" unfolding p1 using lo xn by linarith
  moreover have "x < 2 powi (b - 1 + 1)" unfolding p3 using hi xn by linarith
  ultimately show ?thesis unfolding il by blast
next
  case False
  define y where "y = 1 / x"
  define c where "c = \<lceil>y\<rceil>"
  define j where "j = bitlen (c - 1)"
  have y: "1 < y" using False assms by (simp add: y_def)
  then have c: "2 \<le> c" unfolding c_def by linarith
  then have bb: "2 ^ nat (j - 1) \<le> c - 1" "c - 1 < 2 ^ nat j"
    using bitlen_bounds [of "c - 1"] by (simp_all add: j_def)
  have j1: "1 \<le> j"
    using c bitlen_eq_zero_iff [of "c - 1"] bitlen_nonneg [of "c - 1"] by (simp add: j_def)
  have il: "ilog2 x = - j" using False by (simp add: ilog2_def y_def c_def j_def)
  have yc: "y \<le> of_int c" "of_int c - 1 < y" unfolding c_def by linarith+
  have hi: "of_int c \<le> (2::real) ^ nat j"
  proof -
    have "c \<le> 2 ^ nat j" using bb(2) by simp
    then have "real_of_int c \<le> real_of_int (2 ^ nat j)" by (simp only: of_int_le_iff)
    then show ?thesis by simp
  qed
  have lo: "(2::real) ^ nat (j - 1) \<le> of_int c - 1"
  proof -
    have "real_of_int (2 ^ nat (j - 1)) \<le> real_of_int (c - 1)" using bb(1) by (simp only: of_int_le_iff)
    then show ?thesis by simp
  qed
  have yj: "y \<le> 2 ^ nat j" "2 ^ nat (j - 1) < y" using yc hi lo by linarith+
  have x: "x = 1 / y" using assms by (simp add: y_def)
  have p1: "(2::real) powi (- j) = 1 / 2 ^ nat j"
    using j1 by (simp add: power_int_def field_simps)
  have p2: "(2::real) powi (- j + 1) = 1 / 2 ^ nat (j - 1)"
    using j1 by (auto simp: power_int_def field_simps nat_diff_distrib)
  have "1 / 2 ^ nat j \<le> 1 / y" using yj(1) y by (intro divide_left_mono) auto
  then have a: "2 powi (- j) \<le> x" unfolding p1 x .
  have "1 / y < 1 / 2 ^ nat (j - 1)"
    using yj(2) y by (intro divide_strict_left_mono) (auto intro!: mult_pos_pos)
  then have b: "x < 2 powi (- j + 1)" unfolding p2 x .
  show ?thesis unfolding il using a b by blast
qed

lemma powi2_less_cancel:
  assumes "(2::real) powi a < 2 powi b"
  shows "a < b"
proof (rule ccontr)
  assume "\<not> a < b"
  then have "b \<le> a" by simp
  then have "(2::real) powi b \<le> 2 powi a" by (intro power_int_increasing) auto
  with assms show False by simp
qed

lemma ilog2_eq:
  assumes "2 powi k \<le> x" and "x < 2 powi (k + 1)"
  shows "ilog2 x = k"
proof -
  have "0 < (2::real) powi k" by simp
  with assms(1) have x: "0 < x" by linarith
  from ilog2_bounds [OF x] have b: "2 powi ilog2 x \<le> x" "x < 2 powi (ilog2 x + 1)" by auto
  have "(2::real) powi k < 2 powi (ilog2 x + 1)" using assms(1) b(2) by linarith
  then have 1: "k < ilog2 x + 1" by (rule powi2_less_cancel)
  have "(2::real) powi ilog2 x < 2 powi (k + 1)" using assms(2) b(1) by linarith
  then have 2: "ilog2 x < k + 1" by (rule powi2_less_cancel)
  from 1 2 show ?thesis by simp
qed
subsection \<open>Rounding\<close>

lemma powi2_add: "(2::real) powi (a + b) = 2 powi a * 2 powi b"
  by (simp add: power_int_add)

lemma powi2_diff: "(2::real) powi (a - b) = 2 powi a / 2 powi b"
  by (simp add: power_int_diff)

lemma round_half_even_int [simp]: "round_half_even (of_int n) = n"
  by (simp add: round_half_even_def)

lemma round_half_even_err: "\<bar>of_int (round_half_even x) - x\<bar> \<le> 1 / 2"
proof -
  have "of_int \<lfloor>x\<rfloor> \<le> x" "x < of_int \<lfloor>x\<rfloor> + 1" by linarith+
  then show ?thesis
    by (auto simp: round_half_even_def Let_def)
qed

lemma round_half_even_lower: "of_int a \<le> x \<Longrightarrow> a \<le> round_half_even x"
proof -
  assume "of_int a \<le> x"
  then have "a \<le> \<lfloor>x\<rfloor>" by (simp add: le_floor_iff)
  then show ?thesis by (auto simp: round_half_even_def Let_def)
qed

lemma round_half_even_upper:
  assumes "x \<le> of_int b"
  shows "round_half_even x \<le> b"
proof (cases "x = of_int \<lfloor>x\<rfloor>")
  case True
  then have "round_half_even x = \<lfloor>x\<rfloor>" by (metis round_half_even_int)
  moreover have "\<lfloor>x\<rfloor> \<le> b" using assms by (simp add: floor_le_iff) 
  ultimately show ?thesis by simp
next
  case False
  have "of_int \<lfloor>x\<rfloor> \<le> x" by linarith
  with False have "of_int \<lfloor>x\<rfloor> < x" by linarith
  with assms have "real_of_int \<lfloor>x\<rfloor> < of_int b" by linarith
  then have "\<lfloor>x\<rfloor> < b" by (simp only: of_int_less_iff)
  then show ?thesis by (auto simp: round_half_even_def Let_def)
qed
lemma mag_val_zero [simp]: "mag_val 0 = 0"
  by (simp add: mag_val_def)

lemma mag_val_nonneg: "0 \<le> mag_val m"
  by (simp add: mag_val_def)

text \<open>
  The bits that \<open>round_mag\<close> composes from an exponent \<open>ee\<close> and a multiple \<open>n\<close> of
  the quantum stand for \<open>n * 2^(ee - 52)\<close>.
\<close>

lemma mag_val_compose:
  fixes ee n :: int
  assumes "- 1022 \<le> ee" and "ee \<le> 1023" and "0 \<le> n" and "n \<le> 2 ^ 53"
    and "2 ^ 52 \<le> n \<or> ee = - 1022" and "\<not> (ee = 1023 \<and> n = 2 ^ 53)"
  shows "mag_val (nat ((ee + 1022) * 2 ^ 52 + n)) = of_int n * 2 powi (ee - 52)"
    and "nat ((ee + 1022) * 2 ^ 52 + n) < DBL_INF"
proof -
  define q where "q = nat (ee + 1022)"
  define k where "k = nat n"
  have m: "nat ((ee + 1022) * 2 ^ 52 + n) = q * 2 ^ 52 + k"
    using assms(1,3) by (simp add: q_def k_def nat_add_distrib nat_mult_distrib)
  have q: "int q = ee + 1022" "q \<le> 2045" using assms(1,2) by (simp_all add: q_def)
  have k: "int k = n" "k \<le> 2 ^ 53" using assms(3,4) by (simp_all add: k_def nat_le_iff)
  have kn: "real k = of_int n" using k(1) by (metis of_int_of_nat_eq)
  have lt: "q * 2 ^ 52 + k < DBL_INF"
  proof (cases "q = 2045")
    case True
    with q(1) have "ee = 1023" by simp
    with assms(6) have "n \<noteq> 2 ^ 53" by simp
    with k have "k < 2 ^ 53" by (metis le_neq_implies_less of_nat_numeral of_nat_power)
    with True show ?thesis by (simp add: DBL_INF_def)
  next
    case False
    with q(2) have "q \<le> 2044" by simp
    then have "q * 2 ^ 52 \<le> 2044 * 2 ^ 52" by (intro mult_right_mono) auto
    with k(2) show ?thesis by (simp add: DBL_INF_def)
  qed
  show "nat ((ee + 1022) * 2 ^ 52 + n) < DBL_INF" unfolding m by (rule lt)
  consider "k < 2 ^ 52" | "2 ^ 52 \<le> k" "k < 2 ^ 53" | "k = 2 ^ 53" using k(2) by linarith
  then have "mag_val (q * 2 ^ 52 + k) = real k * 2 powi (ee - 52)"
  proof cases
    case 1
    then have "\<not> 2 ^ 52 \<le> n" using k(1) by (metis not_le of_nat_less_iff of_nat_numeral of_nat_power zless_nat_eq_int_zless k_def)
    with assms(5) have ee: "ee = - 1022" by simp
    then have "q = 0" by (simp add: q_def)
    then show ?thesis using 1 ee by (simp add: mag_val_def)
  next
    case 2
    define f where "f = k - 2 ^ 52"
    have kf: "k = 2 ^ 52 + f" "f < 2 ^ 52" using 2 by (simp_all add: f_def)
    have mm: "q * 2 ^ 52 + k = (q + 1) * 2 ^ 52 + f" by (simp add: kf(1))
    have d: "((q + 1) * 2 ^ 52 + f) div 2 ^ 52 = q + 1"
      using kf(2) div_mult_self3 [of "2 ^ 52 :: nat" f "q + 1"] by (simp del: mult_Suc add_mult_distrib)
    have r: "((q + 1) * 2 ^ 52 + f) mod 2 ^ 52 = f"
      using kf(2) mod_mult_self3 [of "q + 1" "2 ^ 52 :: nat" f] by (simp del: mult_Suc add_mult_distrib)
    have ex: "int (q + 1) - 1075 = ee - 52" using q(1) by simp
    show ?thesis unfolding mm mag_val_def d r ex by (simp add: kf(1))
  next
    case 3
    have mm: "q * 2 ^ 52 + k = (q + 2) * 2 ^ 52" by (simp add: 3)
    have d: "((q + 2) * 2 ^ 52) div 2 ^ 52 = q + 2"
      by (rule nonzero_mult_div_cancel_right) simp
    have r: "((q + 2) * 2 ^ 52) mod 2 ^ 52 = 0"
      by (rule mod_mult_self2_is_0)
    have ex: "int (q + 2) - 1075 = (ee - 52) + 1" using q(1) by simp
    show ?thesis unfolding mm mag_val_def d r ex powi2_add by (simp add: 3)
  qed
  then show "mag_val (nat ((ee + 1022) * 2 ^ 52 + n)) = of_int n * 2 powi (ee - 52)"
    unfolding m kn .
qed
lemma round_mag_zero [simp]: "round_mag 0 = 0"
  by (simp add: round_mag_def)

lemma round_mag_overflow:
  assumes "2 powi 1024 \<le> x"
  shows "round_mag x = DBL_INF"
proof -
  have "0 < (2::real) powi 1024" by simp
  with assms have x: "0 < x" by linarith
  from ilog2_bounds [OF x] assms have "(2::real) powi 1024 < 2 powi (ilog2 x + 1)" by linarith
  then have "1024 < ilog2 x + 1" by (rule powi2_less_cancel)
  then show ?thesis using x by (simp add: round_mag_def Let_def)
qed

lemma round_mag_eq:
  assumes "0 < x" and "ilog2 x \<le> 1023" and "ee = max (ilog2 x) (- 1022)"
  shows "round_mag x = nat ((ee + 1022) * 2 ^ 52 + round_half_even (x / 2 powi (ee - 52)))"
  using assms by (simp add: round_mag_def Let_def)

text \<open>
  In the normal range and below the overflow threshold the result is finite and within
  half a unit in the last place, that is within the relative error \<open>2^(- 53)\<close>.
\<close>

lemma round_mag_normal:
  assumes "2 powi (- 1022) \<le> x" and "x < 2 powi 1024 - 2 powi 970"
  shows "round_mag x < DBL_INF" and "\<bar>mag_val (round_mag x) - x\<bar> \<le> x / 2 ^ 53"
proof -
  define e where "e = ilog2 x"
  define t where "t = x / 2 powi (e - 52)"
  define n where "n = round_half_even t"
  have "0 < (2::real) powi (- 1022)" by simp
  with assms(1) have x: "0 < x" by linarith
  from ilog2_bounds [OF x] have b: "2 powi e \<le> x" "x < 2 powi (e + 1)" by (auto simp: e_def)
  have "(2::real) powi (- 1022) < 2 powi (e + 1)" using assms(1) b(2) by linarith
  then have "- 1022 < e + 1" by (rule powi2_less_cancel)
  then have lo: "- 1022 \<le> e" by simp
  have "0 < (2::real) powi 970" by simp
  then have "(2::real) powi e < 2 powi 1024" using assms(2) b(1) by linarith
  then have "e < 1024" by (rule powi2_less_cancel)
  then have hi: "e \<le> 1023" by simp
  have p: "0 < (2::real) powi (e - 52)" by simp
  have xt: "x = t * 2 powi (e - 52)" by (simp add: t_def)
  have e1: "(2::real) powi e = 2 ^ 52 * 2 powi (e - 52)"
    using powi2_add [of 52 "e - 52"] by simp
  have e2: "(2::real) powi (e + 1) = 2 ^ 53 * 2 powi (e - 52)"
  proof -
    have "e + 1 = 53 + (e - 52)" by simp
    then have "(2::real) powi (e + 1) = 2 powi 53 * 2 powi (e - 52)" by (simp only: powi2_add)
    then show ?thesis by simp
  qed
  have t1: "2 ^ 52 \<le> t" using b(1) p unfolding e1 xt by simp
  have t2: "t < 2 ^ 53" using b(2) p unfolding e2 xt by simp
  have "real_of_int (2 ^ 52) \<le> t" using t1 by simp
  then have n1: "2 ^ 52 \<le> n" unfolding n_def by (rule round_half_even_lower)
  have "t \<le> real_of_int (2 ^ 53)" using t2 by simp
  then have n2: "n \<le> 2 ^ 53" unfolding n_def by (rule round_half_even_upper)
  have err: "\<bar>of_int n - t\<bar> \<le> 1 / 2" unfolding n_def by (rule round_half_even_err)
  have n3: "\<not> (e = 1023 \<and> n = 2 ^ 53)"
  proof
    assume a: "e = 1023 \<and> n = 2 ^ 53"
    have "x < (2 ^ 53 - 1 / 2) * 2 powi 971" using assms(2) by simp
    then have "t * 2 powi 971 < (2 ^ 53 - 1 / 2) * 2 powi 971" using xt a by simp
    then have "t < 2 ^ 53 - 1 / 2" by simp
    with err a show False by simp
  qed
  have "e = max (ilog2 x) (- 1022)" using lo by (simp add: e_def)
  from round_mag_eq [OF x _ this] hi
  have rm: "round_mag x = nat ((e + 1022) * 2 ^ 52 + n)"
    by (simp add: e_def n_def t_def)
  have n0: "0 \<le> n" using n1 by simp
  from mag_val_compose [OF lo hi n0 n2 _ n3] n1
  have mv: "mag_val (round_mag x) = of_int n * 2 powi (e - 52)" and fin: "round_mag x < DBL_INF"
    unfolding rm by simp_all
  show "round_mag x < DBL_INF" by (rule fin)
  have "mag_val (round_mag x) - x = (of_int n - t) * 2 powi (e - 52)"
    unfolding mv by (subst xt) (simp add: left_diff_distrib)
  then have "\<bar>mag_val (round_mag x) - x\<bar> = \<bar>of_int n - t\<bar> * 2 powi (e - 52)"
    by (simp add: abs_mult)
  also have "\<dots> \<le> 1 / 2 * 2 powi (e - 52)"
    using err p by (intro mult_right_mono) auto
  also have "\<dots> = 2 powi e / 2 ^ 53" unfolding e1 by simp
  also have "\<dots> \<le> x / 2 ^ 53" using b(1) by (simp add: divide_right_mono)
  finally show "\<bar>mag_val (round_mag x) - x\<bar> \<le> x / 2 ^ 53" .
qed

text \<open>A number that is a double rounds to itself.\<close>

lemma round_mag_mag_val:
  assumes "m < DBL_INF"
  shows "round_mag (mag_val m) = m"
proof (cases "m div 2 ^ 52 = 0")
  case True
  show ?thesis
  proof (cases "m = 0")
    case True
    then show ?thesis by simp
  next
    case False
    define x where "x = real m * 2 powi (- 1074)"
    have mv: "mag_val m = x" using True by (simp add: mag_val_def x_def)
    have m52: "m < 2 ^ 52" using True by (simp add: div_eq_0_iff)
    have x: "0 < x" using False by (simp add: x_def)
    have "real m < 2 ^ 52" using m52 by (metis of_nat_less_iff of_nat_numeral of_nat_power)
    then have "x < 2 ^ 52 * 2 powi (- 1074)" unfolding x_def by simp
    also have "\<dots> = 2 powi (- 1022)" using powi2_add [of 52 "- 1074"] by simp
    finally have "x < 2 powi (- 1022)" .
    with ilog2_bounds [OF x] have "(2::real) powi ilog2 x < 2 powi (- 1022)" by linarith
    then have e: "ilog2 x < - 1022" by (rule powi2_less_cancel)
    have t: "x / 2 powi (- 1022 - 52) = of_int (int m)" by (simp add: x_def)
    have "- 1022 = max (ilog2 x) (- 1022)" "ilog2 x \<le> 1023" using e by simp_all
    from round_mag_eq [OF x this(2) this(1)]
    have "round_mag x = nat ((- 1022 + 1022) * 2 ^ 52 + int m)"
      unfolding t round_half_even_int .
    then show ?thesis unfolding mv by simp
  qed
next
  case False
  define E where "E = m div 2 ^ 52"
  define f where "f = m mod 2 ^ 52"
  define x where "x = real (2 ^ 52 + f) * 2 powi (int E - 1075)"
  have mEf: "m = E * 2 ^ 52 + f" by (simp add: E_def f_def)
  have E1: "1 \<le> E" using False by (simp add: E_def)
  have E2: "E \<le> 2046"
  proof -
    have "m < 2047 * 2 ^ 52" using assms by (simp add: DBL_INF_def)
    then have "m div 2 ^ 52 < 2047" by (simp add: less_mult_imp_div_less)
    then show ?thesis by (simp add: E_def)
  qed
  have f: "f < 2 ^ 52" by (simp add: f_def)
  have mv: "mag_val m = x" using False by (simp add: mag_val_def x_def E_def f_def)
  have p: "0 < (2::real) powi (int E - 1075)" by simp
  have e1: "(2::real) powi (int E - 1023) = 2 ^ 52 * 2 powi (int E - 1075)"
    using powi2_add [of 52 "int E - 1075"] by simp
  have e2: "(2::real) powi (int E - 1023 + 1) = 2 ^ 53 * 2 powi (int E - 1075)"
  proof -
    have "int E - 1023 + 1 = 53 + (int E - 1075)" by simp
    then have "(2::real) powi (int E - 1023 + 1) = 2 powi 53 * 2 powi (int E - 1075)"
      by (simp only: powi2_add)
    then show ?thesis by simp
  qed
  have "(2::real) ^ 52 \<le> real (2 ^ 52 + f)" by simp
  then have lo: "2 powi (int E - 1023) \<le> x" unfolding e1 x_def using p by (intro mult_right_mono) auto
  have "real (2 ^ 52 + f) < 2 ^ 53" using f by (simp add: of_nat_less_numeral_power_cancel_iff)
  then have hi: "x < 2 powi (int E - 1023 + 1)" unfolding e2 x_def using p by (intro mult_strict_right_mono) auto
  have e: "ilog2 x = int E - 1023" by (rule ilog2_eq [OF lo hi])
  have x: "0 < x" using p by (simp add: x_def)
  have t: "x / 2 powi (int E - 1023 - 52) = of_int (int (2 ^ 52 + f))"
  proof -
    have "int E - 1023 - 52 = int E - 1075" by simp
    then show ?thesis unfolding x_def by simp
  qed
  have "int E - 1023 = max (ilog2 x) (- 1022)" "ilog2 x \<le> 1023" using E1 E2 by (simp_all add: e)
  from round_mag_eq [OF x this(2) this(1)]
  have "round_mag x = nat ((int E - 1023 + 1022) * 2 ^ 52 + int (2 ^ 52 + f))"
    unfolding t round_half_even_int .
  also have "\<dots> = E * 2 ^ 52 + f"
  proof -
    have "(int E - 1023 + 1022) * 2 ^ 52 + int (2 ^ 52 + f) = int (E * 2 ^ 52 + f)"
      by (simp add: algebra_simps)
    then show ?thesis by (simp only: nat_int)
  qed
  finally show ?thesis unfolding mv mEf [symmetric] .
qed
subsection \<open>The fields of a double\<close>

lemma dbl_mag_unat: "dbl_mag u = unat u mod 2 ^ 63"
proof -
  have m: "(0x7FFFFFFFFFFFFFFF :: 64 word) = mask 63" by (simp add: mask_eq_exp_minus_1)
  show ?thesis
    unfolding dbl_mag_def m take_bit_eq_mask [symmetric] unsigned_take_bit_eq
    by (simp add: take_bit_eq_mod)
qed

lemma dbl_exp_unat: "dbl_exp u = unat u div 2 ^ 52 mod 2 ^ 11"
proof -
  have m: "(0x7FF :: 64 word) = mask 11" by (simp add: mask_eq_exp_minus_1)
  show ?thesis
    unfolding dbl_exp_def m take_bit_eq_mask [symmetric] unsigned_take_bit_eq unat_drop_bit_eq
    by (simp add: take_bit_eq_mod drop_bit_eq_div)
qed

lemma dbl_sign_unat: "dbl_sign u \<longleftrightarrow> 2 ^ 63 \<le> unat u"
proof -
  have lt: "unat u < 2 ^ 64" using unsigned_less [of u, where ?'a = nat] by simp
  have "bit u 63 \<longleftrightarrow> bit (unat u) 63" by (simp add: bit_unsigned_iff)
  also have "\<dots> \<longleftrightarrow> odd (unat u div 2 ^ 63)" by (rule bit_iff_odd)
  finally have "dbl_sign u \<longleftrightarrow> odd (unat u div 2 ^ 63)" by (simp only: dbl_sign_def)
  also have "\<dots> \<longleftrightarrow> 2 ^ 63 \<le> unat u"
  proof (cases "2 ^ 63 \<le> unat u")
    case True
    then have "unat u div 2 ^ 63 = 1" using lt by (intro div_nat_eqI) simp_all
    with True show ?thesis by simp
  next
    case False
    then show ?thesis by simp
  qed
  finally show ?thesis .
qed

lemma dbl_exp_mag: "dbl_exp u = dbl_mag u div 2 ^ 52"
proof -
  have "unat u mod 2 ^ 63 div 2 ^ 52 = unat u div 2 ^ 52 mod 2 ^ 11"
    using mod_mult2_eq [of "unat u" "2 ^ 52" "2 ^ 11"] by simp
  then show ?thesis by (simp add: dbl_exp_unat dbl_mag_unat)
qed

lemma dbl_finite_mag: "dbl_finite u \<longleftrightarrow> dbl_mag u < DBL_INF"
proof -
  have "dbl_mag u div 2 ^ 52 < 2047 \<longleftrightarrow> dbl_mag u < 2047 * 2 ^ 52"
    by (rule div_less_iff_less_mult) simp
  then show ?thesis by (simp add: dbl_finite_def dbl_exp_mag DBL_INF_def)
qed

lemma dbl_finite_not_special:
  "dbl_finite u \<Longrightarrow> \<not> dbl_isnan u" "dbl_finite u \<Longrightarrow> \<not> dbl_isinf u"
  by (simp_all add: dbl_finite_def dbl_isnan_def dbl_isinf_def)

lemma unat_dbl_make:
  assumes "m < 2 ^ 63"
  shows "unat (dbl_make s m) = (if s then 2 ^ 63 + m else m)"
proof -
  have m: "unat (word_of_nat m :: 64 word) = m"
    using assms by (simp add: unat_of_nat)
  have h: "unat (0x8000000000000000 :: 64 word) = 2 ^ 63" by simp
  show ?thesis
  proof (cases s)
    case True
    have "unat (0x8000000000000000 + word_of_nat m :: 64 word) = (2 ^ 63 + m) mod 2 ^ 64"
      unfolding unat_word_ariths(1) m h by simp
    also have "\<dots> = 2 ^ 63 + m" using assms by simp
    finally show ?thesis using True by (simp add: dbl_make_def)
  next
    case False
    then show ?thesis using m by (simp add: dbl_make_def)
  qed
qed

lemma dbl_make_fields:
  assumes "m < DBL_INF"
  shows "dbl_mag (dbl_make s m) = m" and "dbl_sign (dbl_make s m) = s"
    and "dbl_finite (dbl_make s m)"
proof -
  have m: "m < 2 ^ 63" using assms by (simp add: DBL_INF_def)
  show 1: "dbl_mag (dbl_make s m) = m"
    using m by (simp add: dbl_mag_unat unat_dbl_make [OF m])
  show "dbl_sign (dbl_make s m) = s"
    using m by (simp add: dbl_sign_unat unat_dbl_make [OF m])
  show "dbl_finite (dbl_make s m)"
    using assms by (simp add: dbl_finite_mag 1)
qed

lemma dbl_val_make:
  "m < DBL_INF \<Longrightarrow> dbl_val (dbl_make s m) = (if s then - mag_val m else mag_val m)"
  by (simp add: dbl_val_def dbl_make_fields)

lemma mag_val_eq_0_iff: "mag_val m = 0 \<longleftrightarrow> m = 0"
  by (auto simp: mag_val_def)
subsection \<open>The operations on finite doubles that are not negative\<close>

lemma dbl_pos_val:
  assumes "dbl_pos a"
  shows "dbl_val a = mag_val (dbl_mag a)" and "dbl_mag a < DBL_INF" and "0 \<le> dbl_val a"
    and "\<not> dbl_isnan a" and "\<not> dbl_isinf a" and "\<not> dbl_sign a"
  using assms
  by (simp_all add: dbl_pos_def dbl_val_def dbl_finite_mag [symmetric] mag_val_nonneg
      dbl_finite_not_special)

lemma dbl_pos_make: "m < DBL_INF \<Longrightarrow> dbl_pos (dbl_make False m)"
  by (simp add: dbl_pos_def dbl_make_fields)

lemma dbl_mul_pos:
  assumes "dbl_pos a" and "dbl_pos b" and "round_mag (dbl_val a * dbl_val b) < DBL_INF"
  shows "dbl_pos (dbl_mul a b)"
    and "dbl_val (dbl_mul a b) = mag_val (round_mag (dbl_val a * dbl_val b))"
proof -
  have "dbl_mul a b = dbl_make False (round_mag (dbl_val a * dbl_val b))"
    using dbl_pos_val [OF assms(1)] dbl_pos_val [OF assms(2)] by (simp add: dbl_mul_def)
  then show "dbl_pos (dbl_mul a b)"
    and "dbl_val (dbl_mul a b) = mag_val (round_mag (dbl_val a * dbl_val b))"
    using assms(3) by (simp_all add: dbl_pos_make dbl_val_make)
qed

lemma dbl_add_pos:
  assumes "dbl_pos a" and "dbl_pos b" and "round_mag (dbl_val a + dbl_val b) < DBL_INF"
  shows "dbl_pos (dbl_add a b)"
    and "dbl_val (dbl_add a b) = mag_val (round_mag (dbl_val a + dbl_val b))"
proof -
  have nn: "0 \<le> dbl_val a + dbl_val b"
    using dbl_pos_val(3) [OF assms(1)] dbl_pos_val(3) [OF assms(2)] by simp
  have "dbl_add a b = dbl_make False (round_mag (dbl_val a + dbl_val b))"
  proof (cases "dbl_val a + dbl_val b = 0")
    case True
    then show ?thesis
      using dbl_pos_val [OF assms(1)] dbl_pos_val [OF assms(2)] by (simp add: dbl_add_def)
  next
    case False
    with nn have "\<not> dbl_val a + dbl_val b < 0" "\<bar>dbl_val a + dbl_val b\<bar> = dbl_val a + dbl_val b"
      by simp_all
    then show ?thesis
      using False dbl_pos_val(4,5) [OF assms(1)] dbl_pos_val(4,5) [OF assms(2)]
      by (simp add: dbl_add_def Let_def)
  qed
  then show "dbl_pos (dbl_add a b)"
    and "dbl_val (dbl_add a b) = mag_val (round_mag (dbl_val a + dbl_val b))"
    using assms(3) by (simp_all add: dbl_pos_make dbl_val_make)
qed

lemma dbl_div_pos:
  assumes "dbl_pos a" and "dbl_pos b" and "dbl_val b \<noteq> 0"
    and "round_mag (dbl_val a / dbl_val b) < DBL_INF"
  shows "dbl_pos (dbl_div a b)"
    and "dbl_val (dbl_div a b) = mag_val (round_mag (dbl_val a / dbl_val b))"
proof -
  have "dbl_mag b \<noteq> 0"
    using assms(3) dbl_pos_val(1) [OF assms(2)] by (auto simp: mag_val_eq_0_iff)
  then have "dbl_div a b = dbl_make False (round_mag (dbl_val a / dbl_val b))"
    using dbl_pos_val [OF assms(1)] dbl_pos_val [OF assms(2)] by (simp add: dbl_div_def)
  then show "dbl_pos (dbl_div a b)"
    and "dbl_val (dbl_div a b) = mag_val (round_mag (dbl_val a / dbl_val b))"
    using assms(4) by (simp_all add: dbl_pos_make dbl_val_make)
qed

text \<open>Multiplying by the double of the sign \<open>1\<close> or \<open>- 1\<close> is exact.\<close>

lemma dbl_of_int_sign:
  "dbl_of_int 1 = 0x3FF0000000000000" "dbl_of_int (- 1) = 0xBFF0000000000000"
proof -
  have "mag_val 0x3FF0000000000000 = 1" by (simp add: mag_val_def)
  with round_mag_mag_val [of "0x3FF0000000000000"]
  have "round_mag 1 = 0x3FF0000000000000" by (simp add: DBL_INF_def)
  then show "dbl_of_int 1 = 0x3FF0000000000000" "dbl_of_int (- 1) = 0xBFF0000000000000"
    by (simp_all add: dbl_of_int_def dbl_make_def)
qed

lemma dbl_mul_sign:
  assumes "dbl_pos a" and "s = 1 \<or> s = - 1"
  shows "dbl_finite (dbl_mul (dbl_of_int s) a)"
    and "dbl_val (dbl_mul (dbl_of_int s) a) = of_int s * dbl_val a"
proof -
  have one: "dbl_finite 0x3FF0000000000000" "\<not> dbl_sign 0x3FF0000000000000"
    "dbl_mag 0x3FF0000000000000 = 0x3FF0000000000000"
    "dbl_finite 0xBFF0000000000000" "dbl_sign 0xBFF0000000000000"
    "dbl_mag 0xBFF0000000000000 = 0x3FF0000000000000"
    by (simp_all add: dbl_finite_def dbl_exp_def dbl_sign_def dbl_mag_def)
  have v: "mag_val 0x3FF0000000000000 = 1" by (simp add: mag_val_def)
  note a = dbl_pos_val [OF assms(1)]
  have r: "round_mag (mag_val (dbl_mag a)) = dbl_mag a"
    by (rule round_mag_mag_val [OF a(2)])
  have m: "dbl_mul (dbl_of_int s) a = dbl_make (s = - 1) (dbl_mag a)"
    using assms(2) one a(4,5,6) by (auto simp: dbl_of_int_sign dbl_mul_def dbl_finite_not_special v r)
  show "dbl_finite (dbl_mul (dbl_of_int s) a)"
    unfolding m using a(2) by (simp add: dbl_make_fields)
  show "dbl_val (dbl_mul (dbl_of_int s) a) = of_int s * dbl_val a"
    unfolding m using a(1,2) assms(2) by (auto simp: dbl_val_make)
qed
subsection \<open>Accumulated rounding errors\<close>

lemma rel_within_refl: "rel_within 0 t t"
  by (simp add: rel_within_def)

lemma rel_within_zero: "rel_within i 0 y \<Longrightarrow> y = 0"
  by (simp add: rel_within_def)

lemma rel_within_nonneg: "0 \<le> t \<Longrightarrow> rel_within i t y \<Longrightarrow> 0 \<le> y"
proof -
  assume t: "0 \<le> t" and w: "rel_within i t y"
  have "0 \<le> t * (1 - 1 / 2 ^ 53) ^ i" using t by simp
  with w show ?thesis unfolding rel_within_def by linarith
qed

lemma rel_within_mono:
  assumes "0 \<le> t" and "i \<le> j" and "rel_within i t y"
  shows "rel_within j t y"
proof -
  have "(1 - 1 / 2 ^ 53 :: real) ^ j \<le> (1 - 1 / 2 ^ 53) ^ i"
    using assms(2) by (intro power_decreasing) auto
  then have lo: "t * (1 - 1 / 2 ^ 53) ^ j \<le> t * (1 - 1 / 2 ^ 53) ^ i"
    using assms(1) by (rule mult_left_mono)
  have "(1 + 1 / 2 ^ 53 :: real) ^ i \<le> (1 + 1 / 2 ^ 53) ^ j"
    using assms(2) by (intro power_increasing) auto
  then have hi: "t * (1 + 1 / 2 ^ 53) ^ i \<le> t * (1 + 1 / 2 ^ 53) ^ j"
    using assms(1) by (rule mult_left_mono)
  from lo hi assms(3) show ?thesis unfolding rel_within_def by linarith
qed

lemma rel_within_mult:
  assumes "0 \<le> a" and "0 \<le> b" and "rel_within i a a'" and "rel_within j b b'"
  shows "rel_within (i + j) (a * b) (a' * b')"
proof -
  have a': "0 \<le> a'" and b': "0 \<le> b'"
    using assms by (auto intro: rel_within_nonneg)
  have "a * (1 - 1 / 2 ^ 53) ^ i * (b * (1 - 1 / 2 ^ 53) ^ j) \<le> a' * b'"
    using assms by (intro mult_mono) (auto simp: rel_within_def a' b')
  moreover have "a' * b' \<le> a * (1 + 1 / 2 ^ 53) ^ i * (b * (1 + 1 / 2 ^ 53) ^ j)"
    using assms by (intro mult_mono) (auto simp: rel_within_def a' b')
  ultimately show ?thesis
    unfolding rel_within_def power_add by (simp add: mult_ac)
qed

lemma rel_within_add:
  assumes "rel_within i a a'" and "rel_within i b b'"
  shows "rel_within i (a + b) (a' + b')"
  using assms unfolding rel_within_def distrib_right by linarith

lemma rel_within_div:
  assumes "0 \<le> a" and "0 < b" and "rel_within i a a'" and "rel_within j b b'"
  shows "rel_within (i + 2 * j) (a / b) (a' / b')"
proof -
  define lo :: real where "lo = 1 - 1 / 2 ^ 53"
  define hi :: real where "hi = 1 + 1 / 2 ^ 53"
  have lo: "0 < lo" "lo \<le> 1" and hi: "1 \<le> hi" by (simp_all add: lo_def hi_def)
  have k1: "1 / lo \<le> hi ^ 2" by (simp add: lo_def hi_def power_divide field_simps)
  have k2: "lo ^ 2 \<le> 1 / hi" by (simp add: lo_def hi_def power_divide field_simps)
  have a': "0 \<le> a'" using assms(1,3) by (rule rel_within_nonneg)
  have A: "a * lo ^ i \<le> a'" "a' \<le> a * hi ^ i"
    using assms(3) by (simp_all add: rel_within_def lo_def hi_def)
  have B: "b * lo ^ j \<le> b'" "b' \<le> b * hi ^ j"
    using assms(4) by (simp_all add: rel_within_def lo_def hi_def)
  have bl: "0 < b * lo ^ j" using assms(2) lo(1) by simp
  then have b': "0 < b'" using B(1) by linarith
  have "a' / b' \<le> a * hi ^ i / (b * lo ^ j)"
    using a' A(2) bl B(1) by (intro frac_le) auto
  also have "\<dots> = a / b * hi ^ i * (1 / lo) ^ j"
    by (simp add: power_divide)
  also have "\<dots> \<le> a / b * hi ^ i * (hi ^ 2) ^ j"
    using assms(1,2) lo hi k1 by (intro mult_left_mono power_mono) auto
  also have "\<dots> = a / b * hi ^ (i + 2 * j)"
    by (simp add: power_add power_mult)
  finally have up: "a' / b' \<le> a / b * hi ^ (i + 2 * j)" .
  have "a / b * lo ^ (i + 2 * j) = a / b * lo ^ i * (lo ^ 2) ^ j"
    by (simp add: power_add power_mult)
  also have "\<dots> \<le> a / b * lo ^ i * (1 / hi) ^ j"
    using assms(1,2) lo hi k2 by (intro mult_left_mono power_mono) auto
  also have "\<dots> = a * lo ^ i / (b * hi ^ j)"
    by (simp add: power_divide)
  also have "\<dots> \<le> a' / b'"
    using a' A(1) b' B(2) by (intro frac_le) auto
  finally have dn: "a / b * lo ^ (i + 2 * j) \<le> a' / b'" .
  from up dn show ?thesis by (simp add: rel_within_def lo_def hi_def)
qed

text \<open>
  One more rounding: a quantity in range, carried with at most 15 roundings so far, is
  rounded to a finite double and has one more rounding.
\<close>

lemma rnd_step:
  assumes "rel_within i t y" and "0 \<le> t" and "in_range t" and "i \<le> 15"
  shows "round_mag y < DBL_INF" and "rel_within (Suc i) t (mag_val (round_mag y))"
proof -
  have both: "round_mag y < DBL_INF \<and> rel_within (Suc i) t (mag_val (round_mag y))"
  proof (cases "t = 0")
    case True
    with assms(1) have "y = 0" by (simp add: rel_within_zero)
    with True show ?thesis by (simp add: rel_within_def DBL_INF_def)
  next
    case False
    with assms(3) have t: "2 powi (- 1021) \<le> t" "t \<le> 2 powi 1023" by (auto simp: in_range_def)
    define lo :: real where "lo = 1 - 1 / 2 ^ 53"
    define hi :: real where "hi = 1 + 1 / 2 ^ 53"
    have lo: "0 < lo" "lo \<le> 1" and hi: "1 \<le> hi" by (simp_all add: lo_def hi_def)
    have Y: "t * lo ^ i \<le> y" "y \<le> t * hi ^ i"
      using assms(1) by (simp_all add: rel_within_def lo_def hi_def)
    have l15: "1 / 2 \<le> lo ^ 15" by (simp add: lo_def power_divide field_simps)
    have h15: "hi ^ 15 < 2 - 1 / 2 ^ 53" by (simp add: hi_def power_divide field_simps)
    have "lo ^ 15 \<le> lo ^ i" using assms(4) lo by (intro power_decreasing) auto
    with l15 have li: "1 / 2 \<le> lo ^ i" by linarith
    have "hi ^ i \<le> hi ^ 15" using assms(4) hi by (intro power_increasing) auto
    with h15 have hi_i: "hi ^ i < 2 - 1 / 2 ^ 53" by linarith
    have "(2::real) powi (- 1022) = 2 powi (- 1021) * (1 / 2)"
      using powi2_add [of "- 1021" "- 1"] by simp
    also have "\<dots> \<le> t * lo ^ i"
      using t(1) li by (intro mult_mono) auto
    finally have y1: "2 powi (- 1022) \<le> y" using Y(1) by linarith
    have "0 < t" using t(1) by (smt (verit) zero_less_power_int)
    then have "t * hi ^ i < t * (2 - 1 / 2 ^ 53)"
      using hi_i by (intro mult_strict_left_mono) auto
    also have "\<dots> \<le> 2 powi 1023 * (2 - 1 / 2 ^ 53)"
      using t(2) by (intro mult_right_mono) auto
    also have "\<dots> = 2 powi 1024 - 2 powi 970"
      using powi2_add [of 1023 1] powi2_add [of 1023 "- 53"] by (simp add: right_diff_distrib)
    finally have y2: "y < 2 powi 1024 - 2 powi 970" using Y(2) by linarith
    note r = round_mag_normal [OF y1 y2]
    define c where "c = y / 2 ^ 53"
    have "\<bar>mag_val (round_mag y) - y\<bar> \<le> c" using r(2) by (simp add: c_def)
    then have "y - c \<le> mag_val (round_mag y)" "mag_val (round_mag y) \<le> y + c"
      by linarith+
    moreover have "y * lo = y - c" "y * hi = y + c"
      by (simp_all add: lo_def hi_def right_diff_distrib distrib_left c_def)
    ultimately have "y * lo \<le> mag_val (round_mag y)" "mag_val (round_mag y) \<le> y * hi"
      by simp_all
    moreover have "t * lo ^ Suc i \<le> y * lo" using Y(1) lo by (simp add: mult_right_mono)
    moreover have "y * hi \<le> t * hi ^ Suc i" using Y(2) hi by (simp add: mult_right_mono)
    ultimately have "rel_within (Suc i) t (mag_val (round_mag y))"
      unfolding rel_within_def lo_def [symmetric] hi_def [symmetric] by linarith
    with r(1) show ?thesis by simp
  qed
  from both show "round_mag y < DBL_INF" and "rel_within (Suc i) t (mag_val (round_mag y))"
    by simp_all
qed

lemma pow_ok_within:
  assumes "pow_ok pw b y" and "dbl_val b powi y = t" and "0 \<le> t"
  shows "dbl_pos (pw b y)" and "rel_within 3 t (dbl_val (pw b y))"
proof -
  show "dbl_pos (pw b y)" using assms(1) by (simp add: pow_ok_def)
  define c where "c = t / 2 ^ 52"
  have e: "\<bar>dbl_val (pw b y) - t\<bar> \<le> c"
    using assms(1,2) by (simp add: pow_ok_def c_def)
  have l: "(1 - 1 / 2 ^ 53 :: real) ^ 3 \<le> 1 - 1 / 2 ^ 52" by (simp add: power_divide field_simps)
  have h: "1 + 1 / 2 ^ 52 \<le> (1 + 1 / 2 ^ 53 :: real) ^ 3" by (simp add: power_divide field_simps)
  have "t * (1 - 1 / 2 ^ 53) ^ 3 \<le> t * (1 - 1 / 2 ^ 52)"
    using l assms(3) by (rule mult_left_mono)
  moreover have "t * (1 + 1 / 2 ^ 52) \<le> t * (1 + 1 / 2 ^ 53) ^ 3"
    using h assms(3) by (rule mult_left_mono)
  moreover have eq: "t * (1 - 1 / 2 ^ 52) = t - c" "t * (1 + 1 / 2 ^ 52) = t + c"
    by (simp_all add: right_diff_distrib distrib_left c_def)
  have "t - c \<le> dbl_val (pw b y)" "dbl_val (pw b y) \<le> t + c"
    using e by linarith+
  then have "t * (1 - 1 / 2 ^ 52) \<le> dbl_val (pw b y)" "dbl_val (pw b y) \<le> t * (1 + 1 / 2 ^ 52)"
    unfolding eq .
  ultimately show "rel_within 3 t (dbl_val (pw b y))"
    unfolding rel_within_def by linarith
qed

lemma rel_within_final:
  assumes "0 \<le> t" and "rel_within 16 t y"
  shows "\<bar>y - t\<bar> \<le> t / 2 ^ 48"
proof -
  have l: "1 - 1 / 2 ^ 48 \<le> (1 - 1 / 2 ^ 53 :: real) ^ 16" by (simp add: power_divide field_simps)
  have h: "(1 + 1 / 2 ^ 53 :: real) ^ 16 \<le> 1 + 1 / 2 ^ 48" by (simp add: power_divide field_simps)
  have "t * (1 - 1 / 2 ^ 48) \<le> t * (1 - 1 / 2 ^ 53) ^ 16"
    using l assms(1) by (rule mult_left_mono)
  moreover have "t * (1 + 1 / 2 ^ 53) ^ 16 \<le> t * (1 + 1 / 2 ^ 48)"
    using h assms(1) by (rule mult_left_mono)
  ultimately have a: "t * (1 - 1 / 2 ^ 48) \<le> y" "y \<le> t * (1 + 1 / 2 ^ 48)"
    using assms(2) unfolding rel_within_def by linarith+
  define c where "c = t / 2 ^ 48"
  have eq: "t * (1 - 1 / 2 ^ 48) = t - c" "t * (1 + 1 / 2 ^ 48) = t + c"
    by (simp_all add: right_diff_distrib distrib_left c_def)
  have "t - c \<le> y" "y \<le> t + c" using a unfolding eq .
  then have "\<bar>y - t\<bar> \<le> c" by linarith
  then show ?thesis by (simp add: c_def)
qed
subsection \<open>The constants and the converted base\<close>

lemma dbl_consts:
  "dbl_pos 0x3FF0000000000000" "dbl_val 0x3FF0000000000000 = 1"
  "dbl_val 0x4000000000000000 = 2" "dbl_val 0x4024000000000000 = 10"
  by (simp_all add: dbl_pos_def dbl_finite_def dbl_exp_def dbl_sign_def dbl_val_def dbl_mag_def
      mag_val_def)

lemma dbl_of_int_exact:
  assumes "mag_val m = \<bar>real_of_int i\<bar>" and "m < DBL_INF"
  shows "dbl_of_int i = dbl_make (i < 0) m"
  using round_mag_mag_val [OF assms(2)] by (simp add: dbl_of_int_def assms(1))

lemma dbl_of_int_base:
  assumes "b \<in> {2, 8, 10, 16}"
  shows "dbl_pos (dbl_of_int b)" and "dbl_val (dbl_of_int b) = of_int b"
proof -
  have m: "mag_val 0x4000000000000000 = \<bar>real_of_int 2\<bar>"
    "mag_val 0x4020000000000000 = \<bar>real_of_int 8\<bar>"
    "mag_val 0x4024000000000000 = \<bar>real_of_int 10\<bar>"
    "mag_val 0x4030000000000000 = \<bar>real_of_int 16\<bar>"
    by (simp_all add: mag_val_def)
  have f: "(0x4000000000000000::nat) < DBL_INF" "(0x4020000000000000::nat) < DBL_INF"
    "(0x4024000000000000::nat) < DBL_INF" "(0x4030000000000000::nat) < DBL_INF"
    by (simp_all add: DBL_INF_def)
  have "dbl_pos (dbl_of_int b) \<and> dbl_val (dbl_of_int b) = of_int b"
    using assms
      dbl_of_int_exact [OF m(1) f(1)] dbl_of_int_exact [OF m(2) f(2)]
      dbl_of_int_exact [OF m(3) f(3)] dbl_of_int_exact [OF m(4) f(4)]
      dbl_pos_make [OF f(1)] dbl_pos_make [OF f(2)] dbl_pos_make [OF f(3)] dbl_pos_make [OF f(4)]
      dbl_val_make [OF f(1), of False] dbl_val_make [OF f(2), of False]
      dbl_val_make [OF f(3), of False] dbl_val_make [OF f(4), of False] m
    by auto
  then show "dbl_pos (dbl_of_int b)" and "dbl_val (dbl_of_int b) = of_int b" by simp_all
qed

text \<open>
  C5, as amended. The literal has sign \<open>1\<close> or \<open>- 1\<close>, a base among 2, 8, 10 and 16,
  an integer part \<open>v\<close> and a fraction \<open>f\<close> that are finite doubles and not negative (the
  fraction is zero when there are no fraction digits), \<open>fracLen\<close> fraction digits and the
  exponent \<open>esign * eval\<close>; \<open>e\<close> is \<open>E^(esign * eval)\<close> with \<open>E = 10\<close> for base 10 and
  \<open>E = 2\<close> otherwise, and \<open>d\<close> is \<open>base^fracLen\<close>. The library's \<open>pow\<close> is within one
  unit in the last place for the two powers the code asks for. If every quantity the code
  computes on the way (\<open>e\<close>, \<open>v * e\<close>, \<open>d\<close>, \<open>v * e * d\<close>, \<open>f * e\<close>, their sum and the
  result) is zero or inside the normal range of binary64, then the computed double is finite
  and differs from \<open>sign * (v + f / d) * e\<close> by at most the fraction \<open>2^(- 48)\<close> of that
  value.
\<close>

theorem numpart_calc_value:
  assumes base: "np_base info \<in> {2, 8, 10, 16}"
    and sign: "np_sign info = 1 \<or> np_sign info = - 1"
    and flen: "0 \<le> np_flen info" and eval: "0 \<le> np_eval info"
    and val: "dbl_pos (np_val info)" and frac: "dbl_pos (np_frac info)"
    and nofrac: "np_flen info = 0 \<longrightarrow> dbl_val (np_frac info) = 0"
    and pe: "0 < np_eval info \<longrightarrow>
               pow_ok pw (if np_base info = 10 then 0x4024000000000000 else 0x4000000000000000)
                 (np_esign info * np_eval info)"
    and pd: "0 < np_flen info \<longrightarrow> pow_ok pw (dbl_of_int (np_base info)) (np_flen info)"
    and v: "v = dbl_val (np_val info)" and f: "f = dbl_val (np_frac info)"
    and e: "e = (if np_base info = 10 then 10 else 2) powi (np_esign info * np_eval info)"
    and d: "d = of_int (np_base info) ^ nat (np_flen info)"
    and r1: "in_range e" and r2: "in_range (v * e)" and r3: "in_range d"
    and r4: "in_range (v * e * d)" and r5: "in_range (f * e)"
    and r6: "in_range (v * e * d + f * e)" and r7: "in_range ((v + f / d) * e)"
  shows "dbl_finite (numpart_calc pw info) \<and>
         \<bar>dbl_val (numpart_calc pw info) - of_int (np_sign info) * (v + f / d) * e\<bar>
           \<le> (v + f / d) * e / 2 ^ 48"
proof -
  define Eb :: "64 word" where
    "Eb = (if np_base info = 10 then 0x4024000000000000 else 0x4000000000000000)"
  define x where "x = np_esign info * np_eval info"
  define e' where "e' = (if np_eval info > 0 then pw Eb x else 0x3FF0000000000000)"
  define val1 where "val1 = (if np_eval info > 0 then dbl_mul (np_val info) e' else np_val info)"
  define d' where "d' = pw (dbl_of_int (np_base info)) (np_flen info)"
  define val2 where "val2 = (if np_flen info > 0
      then dbl_div (dbl_add (dbl_mul val1 d') (dbl_mul (np_frac info) e')) d' else val1)"
  have calc: "numpart_calc pw info = dbl_mul (dbl_of_int (np_sign info)) val2"
    by (simp add: numpart_calc_def Let_def val2_def d'_def val1_def e'_def Eb_def x_def)
  have v0: "0 \<le> v" and f0: "0 \<le> f"
    using dbl_pos_val(3) [OF val] dbl_pos_val(3) [OF frac] by (simp_all add: v f)
  have Ebv: "dbl_val Eb powi x = e"
    by (simp add: Eb_def x_def e dbl_consts)
  have e0: "0 < e" by (simp add: e)
  have d1: "1 \<le> d" using base by (auto simp: d)
  have E: "dbl_pos e'" "rel_within 3 e (dbl_val e')"
  proof -
    have "dbl_pos e' \<and> rel_within 3 e (dbl_val e')"
    proof (cases "np_eval info > 0")
      case True
      with pe have "pow_ok pw Eb x" by (simp add: Eb_def x_def)
      from pow_ok_within [OF this Ebv] e0 True show ?thesis by (simp add: e'_def)
    next
      case False
      with eval have "np_eval info = 0" by simp
      then have "e = 1" "e' = 0x3FF0000000000000" by (simp_all add: e e'_def)
      moreover have "rel_within 3 1 1"
        by (rule rel_within_mono [OF _ _ rel_within_refl]) simp_all
      ultimately show ?thesis
        by (simp add: dbl_consts)
    qed
    then show "dbl_pos e'" "rel_within 3 e (dbl_val e')" by simp_all
  qed
  have V1: "dbl_pos val1" "rel_within 4 (v * e) (dbl_val val1)"
  proof -
    have "dbl_pos val1 \<and> rel_within 4 (v * e) (dbl_val val1)"
    proof (cases "np_eval info > 0")
      case True
      have w: "rel_within 3 (v * e) (dbl_val (np_val info) * dbl_val e')"
        using rel_within_mult [OF v0 _ rel_within_refl E(2)] e0 by (simp add: v)
      have ve: "0 \<le> v * e" using v0 e0 by simp
      note s = rnd_step [OF w ve r2]
      from dbl_mul_pos [OF val E(1) s(1)] s(2) True show ?thesis
        by (simp add: val1_def eval_nat_numeral)
    next
      case False
      with eval have "np_eval info = 0" by simp
      then have "e = 1" "val1 = np_val info" by (simp_all add: e val1_def)
      moreover have "rel_within 4 v v"
        by (rule rel_within_mono [OF v0 _ rel_within_refl]) simp
      ultimately show ?thesis
        using val by (simp add: v)
    qed
    then show "dbl_pos val1" "rel_within 4 (v * e) (dbl_val val1)" by simp_all
  qed
  have ve: "0 \<le> v * e" using v0 e0 by simp
  have fe: "0 \<le> f * e" using f0 e0 by simp
  have V2: "dbl_pos val2 \<and> rel_within 16 ((v + f / d) * e) (dbl_val val2)"
  proof (cases "np_flen info > 0")
    case True
    with pd have pk: "pow_ok pw (dbl_of_int (np_base info)) (np_flen info)" by simp
    have bd: "dbl_val (dbl_of_int (np_base info)) powi np_flen info = d"
      using flen by (simp add: dbl_of_int_base [OF base] d power_int_def)
    have d0: "0 \<le> d" using d1 by simp
    from pow_ok_within [OF pk bd d0]
    have D: "dbl_pos d'" "rel_within 3 d (dbl_val d')" by (simp_all add: d'_def)
    have dpos: "dbl_val d' \<noteq> 0"
    proof -
      have "0 < d * (1 - 1 / 2 ^ 53) ^ 3" using d1 by simp
      with D(2) show ?thesis unfolding rel_within_def by linarith
    qed
    \<comment> \<open>\<open>val * d\<close>\<close>
    have w1: "rel_within 7 (v * e * d) (dbl_val val1 * dbl_val d')"
      using rel_within_mult [OF ve d0 V1(2) D(2)] by simp
    have ved: "0 \<le> v * e * d" using ve d0 by simp
    note s1 = rnd_step [OF w1 ved r4]
    note p1 = dbl_mul_pos [OF V1(1) D(1) s1(1)]
    have P1: "rel_within 8 (v * e * d) (dbl_val (dbl_mul val1 d'))"
      using s1(2) by (simp add: p1(2) eval_nat_numeral)
    \<comment> \<open>\<open>info.frac * e\<close>\<close>
    have w2: "rel_within 3 (f * e) (dbl_val (np_frac info) * dbl_val e')"
      using rel_within_mult [OF f0 _ rel_within_refl E(2)] e0 by (simp add: f)
    note s2 = rnd_step [OF w2 fe r5]
    note p2 = dbl_mul_pos [OF frac E(1) s2(1)]
    have "rel_within 4 (f * e) (dbl_val (dbl_mul (np_frac info) e'))"
      using s2(2) by (simp add: p2(2) eval_nat_numeral)
    then have P2: "rel_within 8 (f * e) (dbl_val (dbl_mul (np_frac info) e'))"
      by (rule rel_within_mono [OF fe, rotated]) simp
    \<comment> \<open>the sum\<close>
    have w3: "rel_within 8 (v * e * d + f * e)
        (dbl_val (dbl_mul val1 d') + dbl_val (dbl_mul (np_frac info) e'))"
      by (rule rel_within_add [OF P1 P2])
    have sum0: "0 \<le> v * e * d + f * e" using ved fe by simp
    note s3 = rnd_step [OF w3 sum0 r6]
    note p3 = dbl_add_pos [OF p1(1) p2(1) s3(1)]
    have P3: "rel_within 9 (v * e * d + f * e)
        (dbl_val (dbl_add (dbl_mul val1 d') (dbl_mul (np_frac info) e')))"
      using s3(2) by (simp add: p3(2) eval_nat_numeral)
    \<comment> \<open>the quotient\<close>
    have dp: "0 < d" using d1 by simp
    have q: "(v * e * d + f * e) / d = (v + f / d) * e"
      using dp by (simp add: field_simps)
    have w4: "rel_within 15 ((v + f / d) * e)
        (dbl_val (dbl_add (dbl_mul val1 d') (dbl_mul (np_frac info) e')) / dbl_val d')"
      using rel_within_div [OF sum0 dp P3 D(2)] by (simp add: q)
    have F0: "0 \<le> (v + f / d) * e" using v0 f0 dp e0 by simp
    note s4 = rnd_step [OF w4 F0 r7]
    note p4 = dbl_div_pos [OF p3(1) D(1) dpos s4(1)]
    have "rel_within 16 ((v + f / d) * e) (dbl_val (dbl_div
        (dbl_add (dbl_mul val1 d') (dbl_mul (np_frac info) e')) d'))"
      using s4(2) by (simp add: p4(2) eval_nat_numeral)
    with p4(1) True show ?thesis by (simp add: val2_def)
  next
    case False
    with flen have z: "np_flen info = 0" by simp
    with nofrac have "f = 0" "d = 1" by (simp_all add: f d)
    then have eq: "(v + f / d) * e = v * e" by simp
    have "rel_within 16 (v * e) (dbl_val val1)"
      using V1(2) by (rule rel_within_mono [OF ve, rotated]) simp
    then have "rel_within 16 ((v + f / d) * e) (dbl_val val1)" unfolding eq .
    moreover have "val2 = val1" using z by (simp add: val2_def)
    ultimately show ?thesis using V1(1) by simp
  qed
  then have P: "dbl_pos val2" and W: "rel_within 16 ((v + f / d) * e) (dbl_val val2)" by simp_all
  have F0: "0 \<le> (v + f / d) * e" using v0 f0 d1 e0 by simp
  note m = dbl_mul_sign [OF P sign]
  have "\<bar>dbl_val val2 - (v + f / d) * e\<bar> \<le> (v + f / d) * e / 2 ^ 48"
    by (rule rel_within_final [OF F0 W])
  moreover have "\<bar>of_int (np_sign info) * dbl_val val2 - of_int (np_sign info) * (v + f / d) * e\<bar> =
      \<bar>dbl_val val2 - (v + f / d) * e\<bar>"
    using sign by (auto simp: algebra_simps)
  ultimately show ?thesis
    unfolding calc using m by simp
qed
text \<open>
  The \<open>pow\<close> that rounds to nearest meets \<open>pow_ok\<close> wherever the power is in the normal
  range.
\<close>

lemma pow_ok_pow:
  assumes "2 powi (- 1022) \<le> dbl_val b powi y" and "dbl_val b powi y < 2 powi 1024 - 2 powi 970"
  shows "pow_ok pow b y"
proof -
  note r = round_mag_normal [OF assms]
  have "0 < (2::real) powi (- 1022)" by simp
  with assms(1) have p: "0 \<le> dbl_val b powi y" by linarith
  have "dbl_val b powi y / 2 ^ 53 \<le> dbl_val b powi y / 2 ^ 52"
    using p by (intro divide_left_mono) auto
  with r(2) have "\<bar>mag_val (round_mag (dbl_val b powi y)) - dbl_val b powi y\<bar>
      \<le> dbl_val b powi y / 2 ^ 52" by linarith
  then show ?thesis
    using r(1) by (simp add: pow_ok_def pow_def dbl_pos_make dbl_val_make)
qed

text \<open>
  The literal \<open>6.02e23\<close>: the computed double is finite and within \<open>2^(- 48)\<close> of
  \<open>6.02 * 10^23\<close>.
\<close>

theorem numpart_calc_value_witness:
  "dbl_finite (numpart_calc pow \<lparr>np_sign = 1, np_val = 0x4018000000000000, np_base = 10,
       np_frac = 0x4000000000000000, np_flen = 2, np_esign = 1, np_eval = 23\<rparr>) \<and>
   \<bar>dbl_val (numpart_calc pow \<lparr>np_sign = 1, np_val = 0x4018000000000000, np_base = 10,
       np_frac = 0x4000000000000000, np_flen = 2, np_esign = 1, np_eval = 23\<rparr>)
     - 602 * 10 ^ 21\<bar> \<le> 602 * 10 ^ 21 / 2 ^ 48"
proof -
  let ?i = "\<lparr>np_sign = 1, np_val = 0x4018000000000000, np_base = 10,
       np_frac = 0x4000000000000000, np_flen = 2, np_esign = 1, np_eval = 23\<rparr>"
  have base: "np_base ?i \<in> {2, 8, 10, 16}" and sign: "np_sign ?i = 1 \<or> np_sign ?i = - 1"
    and flen: "0 \<le> np_flen ?i" and eval: "0 \<le> np_eval ?i" by simp_all
  have val: "dbl_pos (np_val ?i)" and frac: "dbl_pos (np_frac ?i)"
    by (simp_all add: dbl_pos_def dbl_finite_def dbl_exp_def dbl_sign_def)
  have nofrac: "np_flen ?i = 0 \<longrightarrow> dbl_val (np_frac ?i) = 0" by simp
  have v: "(6::real) = dbl_val (np_val ?i)" and f: "(2::real) = dbl_val (np_frac ?i)"
    by (simp_all add: dbl_val_def dbl_sign_def dbl_mag_def mag_val_def)
  have e: "(10::real) ^ 23 = (if np_base ?i = 10 then 10 else 2) powi (np_esign ?i * np_eval ?i)"
    by simp
  have d: "(100::real) = of_int (np_base ?i) ^ nat (np_flen ?i)" by simp
  have pe: "0 < np_eval ?i \<longrightarrow>
      pow_ok pow (if np_base ?i = 10 then 0x4024000000000000 else 0x4000000000000000)
        (np_esign ?i * np_eval ?i)"
    by (simp add: dbl_consts pow_ok_pow)
  have pd: "0 < np_flen ?i \<longrightarrow> pow_ok pow (dbl_of_int (np_base ?i)) (np_flen ?i)"
    by (simp add: dbl_of_int_base pow_ok_pow)
  have r: "in_range ((10::real) ^ 23)" "in_range (6 * (10::real) ^ 23)" "in_range (100::real)"
    "in_range (6 * (10::real) ^ 23 * 100)" "in_range (2 * (10::real) ^ 23)"
    "in_range (6 * (10::real) ^ 23 * 100 + 2 * 10 ^ 23)" "in_range ((6 + 2 / 100) * (10::real) ^ 23)"
    by (simp_all add: in_range_def)
  from numpart_calc_value [OF base sign flen eval val frac nofrac pe pd v f e d r]
  show ?thesis by simp
qed

text \<open>
  As an equation the statement fails in two ways. For the literal \<open>1.5e308\<close> the code
  multiplies the integer part \<open>1e308\<close> by \<open>d = 10\<close> before it divides by \<open>d\<close>; the
  product is above the largest double, so the computed value is \<open>+infinity\<close>, while
  \<open>(1 + 5 / 10) * 10^308\<close> is below the largest finite double \<open>0x7FEFFFFFFFFFFFFF\<close>.
  For the literal \<open>0.1\<close> the computed value is the double \<open>0x3FB999999999999A\<close> nearest
  to \<open>1 / 10\<close>, which is not \<open>1 / 10\<close>.
\<close>

lemma round_mag_10_308: "round_mag (10 ^ 308) = 0x7FE1CCF385EBC8A0"
proof -
  define X :: real where "X = 10 ^ 308"
  have 1: "2 powi 1023 \<le> X" and 2: "X < 2 powi (1023 + 1)" and x0: "0 < X"
    by (simp_all add: X_def)
  have i: "ilog2 X = 1023" by (rule ilog2_eq [OF 1 2])
  have a: "1023 = max (ilog2 X) (- 1022)" "ilog2 X \<le> 1023" unfolding i by simp_all
  have t: "X / 2 powi (1023 - 52) = 10 ^ 308 / 2 ^ 971" by (simp add: X_def)
  have rh: "round_half_even (10 ^ 308 / 2 ^ 971) = 0x11CCF385EBC8A0"
    by (simp add: round_half_even_def Let_def)
  from round_mag_eq [OF x0 a(2) a(1)]
  have "round_mag X = nat ((1023 + 1022) * 2 ^ 52 + 0x11CCF385EBC8A0)" unfolding t rh .
  then show ?thesis unfolding X_def by simp
qed

lemma round_mag_tenth: "round_mag (1 / 10) = 0x3FB999999999999A"
proof -
  define X :: real where "X = 1 / 10"
  have 1: "2 powi (- 4) \<le> X" and 2: "X < 2 powi (- 4 + 1)" and x0: "0 < X"
    by (simp_all add: X_def)
  have i: "ilog2 X = - 4" by (rule ilog2_eq [OF 1 2])
  have a: "- 4 = max (ilog2 X) (- 1022)" "ilog2 X \<le> 1023" unfolding i by simp_all
  have t: "X / 2 powi (- 4 - 52) = 2 ^ 56 / 10" by (simp add: X_def)
  have rh: "round_half_even (2 ^ 56 / 10) = 0x1999999999999A"
    by (simp add: round_half_even_def Let_def)
  from round_mag_eq [OF x0 a(2) a(1)]
  have "round_mag X = nat ((- 4 + 1022) * 2 ^ 52 + 0x1999999999999A)" unfolding t rh .
  then show ?thesis unfolding X_def by simp
qed

theorem numpart_calc_overflow_counterexample:
  "numpart_calc pow \<lparr>np_sign = 1, np_val = 0x3FF0000000000000, np_base = 10,
       np_frac = 0x4014000000000000, np_flen = 1, np_esign = 1, np_eval = 308\<rparr> =
     0x7FF0000000000000 \<and>
   1 * (1 + 5 / 10) * 10 powi (1 * 308) < dbl_val 0x7FEFFFFFFFFFFFFF \<and>
   numpart_calc pow \<lparr>np_sign = 1, np_val = 0, np_base = 10,
       np_frac = 0x3FF0000000000000, np_flen = 1, np_esign = 1, np_eval = 0\<rparr> =
     0x3FB999999999999A \<and>
   dbl_val 0x3FB999999999999A \<noteq> 1 * (0 + 1 / 10) * 10 powi (1 * 0)"
proof -
  define e :: "64 word" where "e = 0x7FE1CCF385EBC8A0"
  have "dbl_val 0x4024000000000000 powi 308 = 10 ^ 308" by (simp add: dbl_consts)
  then have "pow 0x4024000000000000 308 = dbl_make False 0x7FE1CCF385EBC8A0"
    unfolding pow_def round_mag_10_308 [symmetric] by (rule arg_cong)
  then have pe: "pow 0x4024000000000000 308 = e"
    by (simp add: dbl_make_def e_def)
  have ten: "dbl_of_int 10 = 0x4024000000000000"
    using dbl_of_int_exact [of "0x4024000000000000" 10]
    by (simp add: mag_val_def DBL_INF_def dbl_make_def)
  have "round_mag 10 = 0x4024000000000000"
    using round_mag_mag_val [of "0x4024000000000000"] by (simp add: mag_val_def DBL_INF_def)
  then have pd: "pow 0x4024000000000000 1 = 0x4024000000000000"
    by (simp add: pow_def dbl_consts dbl_make_def)
  have fe: "dbl_finite e" "\<not> dbl_sign e" "dbl_mag e = 0x7FE1CCF385EBC8A0"
    by (simp_all add: e_def dbl_finite_def dbl_exp_def dbl_sign_def dbl_mag_def)
  have ve: "mag_val 0x7FE1CCF385EBC8A0 = 0x11CCF385EBC8A0 * 2 ^ 971"
    by (simp add: mag_val_def)
  have one: "dbl_finite 0x3FF0000000000000" "\<not> dbl_sign 0x3FF0000000000000"
    "dbl_mag 0x3FF0000000000000 = 0x3FF0000000000000" "mag_val 0x3FF0000000000000 = 1"
    by (simp_all add: dbl_finite_def dbl_exp_def dbl_sign_def dbl_mag_def mag_val_def)
  have tenf: "dbl_finite 0x4024000000000000" "\<not> dbl_sign 0x4024000000000000"
    "dbl_mag 0x4024000000000000 = 0x4024000000000000" "mag_val 0x4024000000000000 = 10"
    by (simp_all add: dbl_finite_def dbl_exp_def dbl_sign_def dbl_mag_def mag_val_def)
  have five: "dbl_finite 0x4014000000000000" "\<not> dbl_sign 0x4014000000000000"
    "dbl_mag 0x4014000000000000 = 0x4014000000000000" "mag_val 0x4014000000000000 = 5"
    by (simp_all add: dbl_finite_def dbl_exp_def dbl_sign_def dbl_mag_def mag_val_def)
  have inf: "dbl_isinf 0x7FF0000000000000" "\<not> dbl_isnan 0x7FF0000000000000"
    "\<not> dbl_sign 0x7FF0000000000000" "dbl_mag 0x7FF0000000000000 \<noteq> 0"
    by (simp_all add: dbl_isinf_def dbl_isnan_def dbl_exp_def dbl_man_def dbl_sign_def dbl_mag_def)
  have mk: "dbl_make False DBL_INF = 0x7FF0000000000000"
    by (simp add: dbl_make_def DBL_INF_def)
  have v1: "dbl_mul 0x3FF0000000000000 e = e"
  proof -
    have "round_mag (mag_val (dbl_mag e)) = dbl_mag e"
      by (rule round_mag_mag_val) (simp add: fe DBL_INF_def)
    then show ?thesis
      using one fe by (simp add: dbl_mul_def dbl_finite_not_special dbl_make_def e_def)
  qed
  have "round_mag (mag_val 0x7FE1CCF385EBC8A0 * 10) = DBL_INF"
    by (rule round_mag_overflow) (simp add: ve)
  then have p1: "dbl_mul e 0x4024000000000000 = 0x7FF0000000000000"
    using fe tenf by (simp add: dbl_mul_def dbl_finite_not_special mk)
  have "round_mag (5 * mag_val 0x7FE1CCF385EBC8A0) = DBL_INF"
    by (rule round_mag_overflow) (simp add: ve)
  then have p2: "dbl_mul 0x4014000000000000 e = 0x7FF0000000000000"
    using fe five by (simp add: dbl_mul_def dbl_finite_not_special mk)
  have s: "dbl_add 0x7FF0000000000000 0x7FF0000000000000 = 0x7FF0000000000000"
    using inf by (simp add: dbl_add_def)
  have q: "dbl_div 0x7FF0000000000000 0x4024000000000000 = 0x7FF0000000000000"
    using inf tenf by (simp add: dbl_div_def dbl_finite_not_special mk)
  have m: "dbl_mul 0x3FF0000000000000 0x7FF0000000000000 = 0x7FF0000000000000"
    using inf one by (simp add: dbl_mul_def dbl_finite_not_special mk)
  have A: "numpart_calc pow \<lparr>np_sign = 1, np_val = 0x3FF0000000000000, np_base = 10,
       np_frac = 0x4014000000000000, np_flen = 1, np_esign = 1, np_eval = 308\<rparr> =
     0x7FF0000000000000"
    by (simp add: numpart_calc_def pe ten pd v1 p1 p2 s q m dbl_of_int_sign)
  have B: "(1::real) * (1 + 5 / 10) * 10 powi (1 * 308) < dbl_val 0x7FEFFFFFFFFFFFFF"
    by (simp add: dbl_val_def dbl_sign_def dbl_mag_def mag_val_def)
  have zero: "dbl_finite 0" "\<not> dbl_sign 0" "dbl_mag 0 = 0"
    by (simp_all add: dbl_finite_def dbl_exp_def dbl_sign_def dbl_mag_def)
  have mk0: "dbl_make False 0 = 0" "dbl_make False 0x3FF0000000000000 = 0x3FF0000000000000"
    "dbl_make False 0x3FB999999999999A = 0x3FB999999999999A"
    by (simp_all add: dbl_make_def)
  have r1: "round_mag 1 = 0x3FF0000000000000"
    using round_mag_mag_val [of "0x3FF0000000000000"] by (simp add: one DBL_INF_def)
  have z1: "dbl_mul 0 0x4024000000000000 = 0"
    using zero tenf by (simp add: dbl_mul_def dbl_finite_not_special mk0)
  have z2: "dbl_mul 0x3FF0000000000000 0x3FF0000000000000 = 0x3FF0000000000000"
    using one by (simp add: dbl_mul_def dbl_finite_not_special r1 mk0)
  have z3: "dbl_add 0 0x3FF0000000000000 = 0x3FF0000000000000"
    using zero one by (simp add: dbl_add_def dbl_finite_not_special dbl_val_def r1 mk0)
  have z4: "dbl_div 0x3FF0000000000000 0x4024000000000000 = 0x3FB999999999999A"
    using one tenf by (simp add: dbl_div_def dbl_finite_not_special round_mag_tenth mk0)
  have tf: "dbl_finite 0x3FB999999999999A" "\<not> dbl_sign 0x3FB999999999999A"
    "dbl_mag 0x3FB999999999999A = 0x3FB999999999999A"
    by (simp_all add: dbl_finite_def dbl_exp_def dbl_sign_def dbl_mag_def)
  have "round_mag (mag_val 0x3FB999999999999A) = 0x3FB999999999999A"
    by (rule round_mag_mag_val) (simp add: DBL_INF_def)
  then have z5: "dbl_mul 0x3FF0000000000000 0x3FB999999999999A = 0x3FB999999999999A"
    using one tf by (simp add: dbl_mul_def dbl_finite_not_special mk0)
  have C: "numpart_calc pow \<lparr>np_sign = 1, np_val = 0, np_base = 10,
       np_frac = 0x3FF0000000000000, np_flen = 1, np_esign = 1, np_eval = 0\<rparr> =
     0x3FB999999999999A"
    by (simp add: numpart_calc_def ten pd z1 z2 z3 z4 z5 dbl_of_int_sign)
  have D: "dbl_val 0x3FB999999999999A \<noteq> 1 * (0 + 1 / 10) * 10 powi (1 * 0)"
    by (simp add: dbl_val_def dbl_sign_def dbl_mag_def mag_val_def)
  from A B C D show ?thesis by blast
qed
text \<open>
  The overflow does not depend on how the library rounds: with any \<open>pow\<close> that is within
  one unit in the last place for \<open>10^308\<close> and \<open>10^1\<close>, the literal \<open>1.5e308\<close> yields
  \<open>+infinity\<close>.
\<close>

lemma numpart_calc_overflow_any_pow:
  assumes "pow_ok pw 0x4024000000000000 308" and "pow_ok pw (dbl_of_int 10) 1"
  shows "numpart_calc pw \<lparr>np_sign = 1, np_val = 0x3FF0000000000000, np_base = 10,
       np_frac = 0x4014000000000000, np_flen = 1, np_esign = 1, np_eval = 308\<rparr> =
     0x7FF0000000000000"
proof -
  define e' where "e' = pw 0x4024000000000000 308"
  define d' where "d' = pw (dbl_of_int 10) 1"
  define L :: real where "L = 10 ^ 308 - 10 ^ 308 / 2 ^ 52"
  have E: "dbl_pos e'" "L \<le> dbl_val e'"
  proof -
    have "\<bar>dbl_val e' - 10 ^ 308\<bar> \<le> 10 ^ 308 / 2 ^ 52" "dbl_pos e'"
      using assms(1) by (simp_all add: pow_ok_def e'_def dbl_consts)
    then show "dbl_pos e'" "L \<le> dbl_val e'" unfolding L_def by linarith+
  qed
  have D: "dbl_pos d'" "10 - 10 / 2 ^ 52 \<le> dbl_val d'"
  proof -
    have b: "10 \<in> {2, 8, 10, 16 :: int}" by simp
    have "\<bar>dbl_val d' - 10\<bar> \<le> 10 / 2 ^ 52" "dbl_pos d'"
      using assms(2) by (simp_all add: pow_ok_def d'_def dbl_of_int_base [OF b])
    then show "dbl_pos d'" "10 - 10 / 2 ^ 52 \<le> dbl_val d'" by linarith+
  qed
  have L0: "0 \<le> L" by (simp add: L_def)
  have one: "dbl_pos 0x3FF0000000000000" "dbl_val 0x3FF0000000000000 = 1"
    by (simp_all add: dbl_consts)
  have five: "dbl_pos 0x4014000000000000" "dbl_val 0x4014000000000000 = 5"
    by (simp_all add: dbl_pos_def dbl_finite_def dbl_exp_def dbl_sign_def dbl_val_def dbl_mag_def
        mag_val_def)
  have inf: "dbl_isinf 0x7FF0000000000000" "\<not> dbl_isnan 0x7FF0000000000000"
    "\<not> dbl_sign 0x7FF0000000000000" "dbl_mag 0x7FF0000000000000 \<noteq> 0"
    by (simp_all add: dbl_isinf_def dbl_isnan_def dbl_exp_def dbl_man_def dbl_sign_def dbl_mag_def)
  have mk: "dbl_make False DBL_INF = 0x7FF0000000000000"
    by (simp add: dbl_make_def DBL_INF_def)
  \<comment> \<open>\<open>val *= e\<close> is exact\<close>
  note e = dbl_pos_val [OF E(1)]
  have idem: "round_mag (1 * dbl_val e') = dbl_mag e'"
    using round_mag_mag_val [OF e(2)] by (simp add: e(1))
  then have i2: "round_mag (dbl_val 0x3FF0000000000000 * dbl_val e') < DBL_INF"
    using e(2) by (simp add: one)
  note v1 = dbl_mul_pos [OF one(1) E(1) i2]
  have v1v: "dbl_val (dbl_mul 0x3FF0000000000000 e') = dbl_val e'"
    using v1(2) idem by (simp add: one e(1))
  \<comment> \<open>the two products overflow\<close>
  have big1: "2 powi 1024 \<le> L * (10 - 10 / 2 ^ 52)" by (simp add: L_def)
  have big2: "2 powi 1024 \<le> 5 * L" by (simp add: L_def)
  have "L * (10 - 10 / 2 ^ 52) \<le> dbl_val e' * dbl_val d'"
    using E(2) D(2) L0 by (intro mult_mono) auto
  with big1 have "2 powi 1024 \<le> dbl_val e' * dbl_val d'" by linarith
  then have o1: "round_mag (dbl_val e' * dbl_val d') = DBL_INF" by (rule round_mag_overflow)
  have p1: "dbl_mul (dbl_mul 0x3FF0000000000000 e') d' = 0x7FF0000000000000"
    using dbl_pos_val [OF v1(1)] dbl_pos_val [OF D(1)] v1v o1
    by (simp add: dbl_mul_def mk)
  have "5 * L \<le> 5 * dbl_val e'" using E(2) by simp
  with big2 have "2 powi 1024 \<le> 5 * dbl_val e'" by linarith
  then have o2: "round_mag (5 * dbl_val e') = DBL_INF" by (rule round_mag_overflow)
  have p2: "dbl_mul 0x4014000000000000 e' = 0x7FF0000000000000"
    using dbl_pos_val [OF five(1)] e five(2) o2 by (simp add: dbl_mul_def mk)
  have s: "dbl_add 0x7FF0000000000000 0x7FF0000000000000 = 0x7FF0000000000000"
    using inf by (simp add: dbl_add_def)
  have q: "dbl_div 0x7FF0000000000000 d' = 0x7FF0000000000000"
    using inf dbl_pos_val(4,5,6) [OF D(1)] by (simp add: dbl_div_def mk)
  have "dbl_mag 0x3FF0000000000000 \<noteq> 0" by (simp add: dbl_mag_def)
  then have m: "dbl_mul 0x3FF0000000000000 0x7FF0000000000000 = 0x7FF0000000000000"
    using inf dbl_pos_val(4,5,6) [OF one(1)] by (simp add: dbl_mul_def mk)
  show ?thesis
    by (simp add: numpart_calc_def e'_def [symmetric] d'_def [symmetric] p1 p2 s q m
        dbl_of_int_sign)
qed

section \<open>The pipe operator\<close>

lemma group_items_paren: "group_items (expr_paren f ex) = [expr_paren f ex]"
  by (cases ex) simp_all

lemma expr_infix_comma: "expr_infix arith flp KS_COMMA l r = expr_group flp l r"
  by (cases "(arith, flp, KS_COMMA, l, r)" rule: expr_infix.cases) (simp_all add: folds_def)

text \<open>
  C6. Combining \<open>left | right\<close>. Let \<open>x\<close> be the left operand as the result holds it: a
  number literal as it is, anything else inside an \<open>EXPR_PAREN\<close> node placed at the
  operand's position.

  \<^item> When \<open>right\<close> is a call whose parameters are a group \<open>y\<^sub>1, \<dots>, y\<^sub>n\<close>, the result is
    the same call (same position, same command) on the group \<open>x, y\<^sub>1, \<dots>, y\<^sub>n\<close>: the
    parameters are spliced in after \<open>x\<close>, not nested.
  \<^item> When \<open>right\<close> is a call with any other parameter expression \<open>y\<close>, the result is the
    same call on the group of the two elements \<open>x, y\<close>.
  \<^item> When \<open>right\<close> is a bare name, the result is the call of that name on \<open>x\<close> alone.
  \<^item> Every other \<open>right\<close> is the parse error "Invalid pipe".

  The right-hand side is written with the constructors of the syntax tree only.
\<close>

theorem parser_infix_pipe:
  "parser_infix arith flp KS_PIPE left right =
     (let x = (case left of EXPR_NUM lf n \<Rightarrow> EXPR_NUM lf n
               | _ \<Rightarrow> EXPR_PAREN (expr_flp left) left)
      in case right of
           EXPR_CALL rf cmd params \<Rightarrow>
             Inr (EXPR_CALL rf cmd
                    (EXPR_GROUP flp
                       (case params of EXPR_GROUP gf ys \<Rightarrow> x # ys | _ \<Rightarrow> [x, params])))
         | EXPR_NAMES rf names \<Rightarrow> Inr (EXPR_CALL rf (EXPR_NAMES rf names) x)
         | _ \<Rightarrow> Inl ''Invalid pipe'')"
proof -
  define x where "x = (case left of EXPR_NUM lf n \<Rightarrow> EXPR_NUM lf n
               | _ \<Rightarrow> EXPR_PAREN (expr_flp left) left)"
  have px: "expr_paren (expr_flp left) left = x"
    unfolding x_def by (cases left) simp_all
  have gx: "group_items x = [x]"
    unfolding px [symmetric] by (rule group_items_paren)
  have comma: "expr_infix arith flp KS_COMMA x params =
      EXPR_GROUP flp (case params of EXPR_GROUP gf ys \<Rightarrow> x # ys | _ \<Rightarrow> [x, params])" for params
    unfolding expr_infix_comma expr_group_def gx by (cases params) simp_all
  show ?thesis
    unfolding Let_def x_def [symmetric]
    by (cases right) (simp_all add: px comma expr_call_def)
qed

text \<open>
  Four instances, with every node at its own position: \<open>x | f(y, z)\<close> becomes the call of
  \<open>f\<close> on the three-element group \<open>(x), y, z\<close>; \<open>1 | f y\<close> becomes the call of \<open>f\<close> on the
  group \<open>1, y\<close>; \<open>x | f\<close> becomes the call of \<open>f\<close> on \<open>(x)\<close>; \<open>x | "s"\<close> is refused.
\<close>

theorem parser_infix_pipe_witness:
  "parser_infix (\<lambda>k a b. a) \<lparr>fullfile = 0, basefile = 0, line = 1, chr = 3\<rparr> KS_PIPE
     (EXPR_NAMES \<lparr>fullfile = 0, basefile = 0, line = 1, chr = 1\<rparr> [''x''])
     (EXPR_CALL \<lparr>fullfile = 0, basefile = 0, line = 1, chr = 5\<rparr>
        (EXPR_NAMES \<lparr>fullfile = 0, basefile = 0, line = 1, chr = 5\<rparr> [''f''])
        (EXPR_GROUP \<lparr>fullfile = 0, basefile = 0, line = 1, chr = 8\<rparr>
           [EXPR_NAMES \<lparr>fullfile = 0, basefile = 0, line = 1, chr = 7\<rparr> [''y''],
            EXPR_NAMES \<lparr>fullfile = 0, basefile = 0, line = 1, chr = 10\<rparr> [''z'']])) =
   Inr (EXPR_CALL \<lparr>fullfile = 0, basefile = 0, line = 1, chr = 5\<rparr>
          (EXPR_NAMES \<lparr>fullfile = 0, basefile = 0, line = 1, chr = 5\<rparr> [''f''])
          (EXPR_GROUP \<lparr>fullfile = 0, basefile = 0, line = 1, chr = 3\<rparr>
             [EXPR_PAREN \<lparr>fullfile = 0, basefile = 0, line = 1, chr = 1\<rparr>
                (EXPR_NAMES \<lparr>fullfile = 0, basefile = 0, line = 1, chr = 1\<rparr> [''x'']),
              EXPR_NAMES \<lparr>fullfile = 0, basefile = 0, line = 1, chr = 7\<rparr> [''y''],
              EXPR_NAMES \<lparr>fullfile = 0, basefile = 0, line = 1, chr = 10\<rparr> [''z'']])) \<and>
   parser_infix (\<lambda>k a b. a) \<lparr>fullfile = 0, basefile = 0, line = 1, chr = 3\<rparr> KS_PIPE
     (EXPR_NUM \<lparr>fullfile = 0, basefile = 0, line = 1, chr = 1\<rparr> 0x3FF0000000000000)
     (EXPR_CALL \<lparr>fullfile = 0, basefile = 0, line = 1, chr = 5\<rparr>
        (EXPR_NAMES \<lparr>fullfile = 0, basefile = 0, line = 1, chr = 5\<rparr> [''f''])
        (EXPR_NAMES \<lparr>fullfile = 0, basefile = 0, line = 1, chr = 7\<rparr> [''y''])) =
   Inr (EXPR_CALL \<lparr>fullfile = 0, basefile = 0, line = 1, chr = 5\<rparr>
          (EXPR_NAMES \<lparr>fullfile = 0, basefile = 0, line = 1, chr = 5\<rparr> [''f''])
          (EXPR_GROUP \<lparr>fullfile = 0, basefile = 0, line = 1, chr = 3\<rparr>
             [EXPR_NUM \<lparr>fullfile = 0, basefile = 0, line = 1, chr = 1\<rparr> 0x3FF0000000000000,
              EXPR_NAMES \<lparr>fullfile = 0, basefile = 0, line = 1, chr = 7\<rparr> [''y'']])) \<and>
   parser_infix (\<lambda>k a b. a) \<lparr>fullfile = 0, basefile = 0, line = 1, chr = 3\<rparr> KS_PIPE
     (EXPR_NAMES \<lparr>fullfile = 0, basefile = 0, line = 1, chr = 1\<rparr> [''x''])
     (EXPR_NAMES \<lparr>fullfile = 0, basefile = 0, line = 1, chr = 5\<rparr> [''f'']) =
   Inr (EXPR_CALL \<lparr>fullfile = 0, basefile = 0, line = 1, chr = 5\<rparr>
          (EXPR_NAMES \<lparr>fullfile = 0, basefile = 0, line = 1, chr = 5\<rparr> [''f''])
          (EXPR_PAREN \<lparr>fullfile = 0, basefile = 0, line = 1, chr = 1\<rparr>
             (EXPR_NAMES \<lparr>fullfile = 0, basefile = 0, line = 1, chr = 1\<rparr> [''x'']))) \<and>
   parser_infix (\<lambda>k a b. a) \<lparr>fullfile = 0, basefile = 0, line = 1, chr = 3\<rparr> KS_PIPE
     (EXPR_NAMES \<lparr>fullfile = 0, basefile = 0, line = 1, chr = 1\<rparr> [''x''])
     (EXPR_STR \<lparr>fullfile = 0, basefile = 0, line = 1, chr = 5\<rparr> ''s'') =
   Inl ''Invalid pipe''"
  by (simp only: parser_infix_pipe Let_def expr.case expr_flp.simps list.simps simp_thms)

section \<open>Pool slot allocation\<close>

lemma find_bit_props:
  assumes "find P [0..<n] = Some i"
  shows "i < n \<and> P i \<and> (\<forall>j<i. \<not> P j)"
  using assms
  by (auto simp: find_Some_iff)

lemma ffsll_nonzero:
  assumes "x \<noteq> 0"
  shows "\<exists>i<64. ffsll x = int i + 1 \<and> bit x i \<and> (\<forall>j<i. \<not> bit x j)"
proof -
  from assms obtain k where k: "bit x k"
    by (auto simp: bit_eq_iff)
  then have "k < 64" using bit_imp_le_length [of x k] by simp
  with k have "find (bit x) [0..<64] \<noteq> None"
    by (auto simp: find_None_iff)
  then obtain i where f: "find (bit x) [0..<64] = Some i" by auto
  from find_bit_props [OF f] f show ?thesis
    by (auto simp: ffsll_def)
qed

lemma word64_ones: "(0xFFFFFFFFFFFFFFFF :: 64 word) = - 1"
  by simp

lemma bmp_alloc_full:
  assumes "\<forall>j. loop \<le> j \<and> j < length bmp \<longrightarrow> bmp ! j = - 1"
    and "cnt = 64 * (int (length bmp) - int loop)" and "loop \<le> length bmp"
  shows "bmp_alloc bmp loop cnt = Inr (- 1, bmp)"
  using assms
proof (induction "length bmp - loop" arbitrary: loop cnt)
  case 0
  then show ?case by (subst bmp_alloc.simps) simp
next
  case (Suc n)
  then have lt: "loop < length bmp" and w: "bmp ! loop = - 1" and pos: "cnt > 0" by auto
  have "bmp_alloc bmp (loop + 1) (cnt - 64) = Inr (- 1, bmp)"
    using Suc by (intro Suc.hyps(1)) auto
  then show ?case
    using lt w pos by (subst bmp_alloc.simps) (simp add: word64_ones)
qed

lemma bmp_alloc_found:
  assumes "\<forall>j. loop \<le> j \<and> j < w \<longrightarrow> bmp ! j = - 1"
    and "loop \<le> w" and "w < length bmp" and "bmp ! w \<noteq> - 1"
    and "cnt > 64 * (int w - int loop)"
  shows "bmp_alloc bmp loop cnt =
           Inr (int w * 64 + (ffsll (NOT (bmp ! w)) - 1),
                bmp[w := bmp ! w OR push_bit (nat (ffsll (NOT (bmp ! w)) - 1)) 1])"
  using assms
proof (induction "w - loop" arbitrary: loop cnt)
  case 0
  then have "loop = w" by simp
  with 0 show ?case by (subst bmp_alloc.simps) (simp add: Let_def word64_ones del: word64_ones [symmetric])
next
  case (Suc n)
  then have lt: "loop < length bmp" and full: "bmp ! loop = - 1" and pos: "cnt > 0" by auto
  have "bmp_alloc bmp (loop + 1) (cnt - 64) =
           Inr (int w * 64 + (ffsll (NOT (bmp ! w)) - 1),
                bmp[w := bmp ! w OR push_bit (nat (ffsll (NOT (bmp ! w)) - 1)) 1])"
    using Suc by (intro Suc.hyps(1)) auto
  then show ?case
    using lt full pos by (subst bmp_alloc.simps) (simp add: word64_ones)
qed

lemma word_full_iff: "(x :: 64 word) = - 1 \<longleftrightarrow> (\<forall>i<64. bit x i)"
  by (auto simp: bit_eq_iff bit_imp_le_length)

lemma first_clear_word:
  assumes "i < 64 * length bmp" and "\<not> bmp_bit bmp i" and "\<forall>k<i. bmp_bit bmp k"
  shows "(\<forall>j < i div 64. bmp ! j = - 1) \<and> bmp ! (i div 64) \<noteq> - 1 \<and>
         ffsll (NOT (bmp ! (i div 64))) - 1 = int (i mod 64)"
proof -
  let ?w = "i div 64"
  have full: "bmp ! j = - 1" if "j < ?w" for j
  proof -
    have "bit (bmp ! j) b" if "b < 64" for b
    proof -
      have "64 * j + b < i" using \<open>j < ?w\<close> \<open>b < 64\<close> by arith
      then have "bmp_bit bmp (64 * j + b)" using assms(3) by blast
      then show ?thesis using \<open>b < 64\<close> by (simp add: bmp_bit_def)
    qed
    then show ?thesis by (simp add: word_full_iff)
  qed
  have nf: "bmp ! ?w \<noteq> - 1"
  proof -
    have "i mod 64 < 64" by simp
    with assms(2) show ?thesis unfolding bmp_bit_def word_full_iff by blast
  qed
  then have "NOT (bmp ! ?w) \<noteq> 0"
    by (metis bit.compl_zero bit.double_compl)
  from ffsll_nonzero [OF this] obtain b where b: "b < 64"
    "ffsll (NOT (bmp ! ?w)) = int b + 1" "bit (NOT (bmp ! ?w)) b" "\<forall>j<b. \<not> bit (NOT (bmp ! ?w)) j"
    by blast
  have clr: "\<not> bit (bmp ! ?w) b" using b(3) by (simp add: bit_not_iff)
  have set_below: "bit (bmp ! ?w) j" if "j < b" for j
    using b(4) that b(1) by (auto simp: bit_not_iff)
  have "b = i mod 64"
  proof (rule ccontr)
    assume ne: "b \<noteq> i mod 64"
    show False
    proof (cases "b < i mod 64")
      case True
      then have "64 * ?w + b < i" by (metis add_less_cancel_left mult_div_mod_eq)
      then have "bmp_bit bmp (64 * ?w + b)" using assms(3) by blast
      then show False using clr b(1) by (simp add: bmp_bit_def)
    next
      case False
      with ne have "i mod 64 < b" by simp
      from set_below [OF this] assms(2) show False by (simp add: bmp_bit_def)
    qed
  qed
  with b(2) full nf show ?thesis by simp
qed

lemma bmp_bit_update:
  assumes "w < length bmp" and "b < 64" and "k < 64 * length bmp"
  shows "bmp_bit (bmp[w := bmp ! w OR push_bit b 1]) k \<longleftrightarrow> k = 64 * w + b \<or> bmp_bit bmp k"
proof (cases "k div 64 = w")
  case True
  have "k = 64 * w + b \<longleftrightarrow> k mod 64 = b"
    using True assms(2) by (metis mod_less mod_mult_self4 mult.commute mult_div_mod_eq)
  then show ?thesis
    using True assms
    by (auto simp: bmp_bit_def bit_or_iff bit_exp_iff)
next
  case False
  then have "k \<noteq> 64 * w + b" using assms(2) by auto
  with False show ?thesis by (simp add: bmp_bit_def)
qed

lemma bmp_alloc_first_clear:
  assumes "i < 64 * length bmp" and "\<not> bmp_bit bmp i" and "\<forall>k<i. bmp_bit bmp k"
    and "cnt = 64 * int (length bmp)"
  shows "\<exists>bmp'. bmp_alloc bmp 0 cnt = Inr (int i, bmp') \<and> length bmp' = length bmp \<and>
           (\<forall>k < 64 * length bmp. bmp_bit bmp' k \<longleftrightarrow> k = i \<or> bmp_bit bmp k)"
proof -
  let ?w = "i div 64"
  from first_clear_word [OF assms(1-3)]
  have full: "\<forall>j. 0 \<le> j \<and> j < ?w \<longrightarrow> bmp ! j = - 1" and nf: "bmp ! ?w \<noteq> - 1"
    and pos: "ffsll (NOT (bmp ! ?w)) - 1 = int (i mod 64)" by auto
  have wl: "?w < length bmp" using assms(1) by (simp add: less_mult_imp_div_less mult.commute)
  have c: "cnt > 64 * (int ?w - int 0)" using wl assms(4) by simp
  have i_eq: "int ?w * 64 + int (i mod 64) = int i"
    by (metis mult.commute of_nat_add of_nat_mult of_nat_numeral mult_div_mod_eq)
  have "bmp_alloc bmp 0 cnt = Inr (int i, bmp[?w := bmp ! ?w OR push_bit (i mod 64) 1])"
    using bmp_alloc_found [OF full _ wl nf c] by (simp add: pos i_eq)
  moreover have "\<forall>k < 64 * length bmp.
      bmp_bit (bmp[?w := bmp ! ?w OR push_bit (i mod 64) 1]) k \<longleftrightarrow> k = i \<or> bmp_bit bmp k"
    using bmp_bit_update [OF wl, of "i mod 64"] by simp
  ultimately show ?thesis by simp
qed

lemma bmp_all_set_full:
  assumes "\<forall>i < 64 * length bmp. bmp_bit bmp i"
  shows "\<forall>j. 0 \<le> j \<and> j < length bmp \<longrightarrow> bmp ! j = - 1"
proof (intro allI impI)
  fix j assume j: "0 \<le> j \<and> j < length bmp"
  have "bit (bmp ! j) b" if "b < 64" for b
  proof -
    have "64 * j + b < 64 * length bmp" using j that by simp
    then have "bmp_bit bmp (64 * j + b)" using assms by blast
    then show ?thesis using that by (simp add: bmp_bit_def)
  qed
  then show "bmp ! j = - 1" by (simp add: word_full_iff)
qed

lemma memset0_upper_half:
  assumes "length ws = n"
  shows "memset0 (realloc ws (2 * int n) junkw) n (8 * n) = Some (ws @ replicate n 0)"
  using assms by (simp add: memset0_def realloc_def Let_def)

lemma bmp_reserve_found:
  assumes "psize p = 64 * int (length (aloc p))"
    and "i < nat (psize p)" and "\<not> bmp_bit (aloc p) i" and "\<forall>k<i. bmp_bit (aloc p) k"
  shows "\<exists>aloc'. bmp_reserve junk junkw p = Inr (int i, p\<lparr>aloc := aloc'\<rparr>) \<and>
           length aloc' = length (aloc p) \<and>
           (\<forall>k < nat (psize p). bmp_bit aloc' k \<longleftrightarrow> k = i \<or> bmp_bit (aloc p) k)"
proof -
  have i: "i < 64 * length (aloc p)" using assms(1,2) by simp
  from bmp_alloc_first_clear [OF i assms(3,4) assms(1)]
  obtain bmp' where b: "bmp_alloc (aloc p) 0 (psize p) = Inr (int i, bmp')"
    "length bmp' = length (aloc p)"
    "\<forall>k < 64 * length (aloc p). bmp_bit bmp' k \<longleftrightarrow> k = i \<or> bmp_bit (aloc p) k"
    by blast
  have "bmp_reserve junk junkw p = Inr (int i, p\<lparr>aloc := bmp'\<rparr>)"
    by (simp add: bmp_reserve_def b(1))
  with b(2,3) assms(1) show ?thesis by auto
qed

lemma bmp_reserve_alloc_full:
  assumes "psize p = 64 * int (length (aloc p))"
    and "\<forall>i < nat (psize p). bmp_bit (aloc p) i"
  shows "bmp_alloc (aloc p) 0 (psize p) = Inr (- 1, aloc p)"
proof -
  have "\<forall>i < 64 * length (aloc p). bmp_bit (aloc p) i" using assms by simp
  from bmp_all_set_full [OF this] show ?thesis
    using assms(1) by (intro bmp_alloc_full) auto
qed

lemma bmp_reserve_grow:
  assumes "psize p = 64 * int (length (aloc p))" and "0 < length (aloc p)"
    and "length (ref p) = length (aloc p)"
    and "\<forall>i < nat (psize p). bmp_bit (aloc p) i" and "psize p < 0x3FFFFFFF"
  shows "bmp_reserve junk junkw p =
           Inr (psize p,
                \<lparr>tbl = realloc (tbl p) (2 * psize p) junk, psize = 2 * psize p,
                 aloc = aloc p @ 1 # replicate (length (aloc p) - 1) 0,
                 ref = ref p @ replicate (length (aloc p)) 0\<rparr>)"
proof -
  let ?n = "length (aloc p)"
  have full: "bmp_alloc (aloc p) 0 (psize p) = Inr (- 1, aloc p)"
    by (rule bmp_reserve_alloc_full [OF assms(1,4)])
  have d64: "psize p * 2 div 64 = 2 * int ?n" "psize p div 64 = int ?n"
    "8 * psize p div 64 = 8 * int ?n" "psize p * 2 div 128 = int ?n" "psize p * 2 div 2 = psize p"
    using assms(1) by simp_all
  have m1: "memset0 (realloc (aloc p) (2 * int ?n) junkw) ?n (8 * ?n) = Some (aloc p @ replicate ?n 0)"
    by (rule memset0_upper_half) simp
  have m2: "memset0 (realloc (ref p) (2 * int ?n) junkw) ?n (8 * ?n) = Some (ref p @ replicate ?n 0)"
    by (rule memset0_upper_half) (simp add: assms(3))
  have a2: "memset0 (realloc (aloc p) (psize p * 2 div 64) junkw)
              (nat (psize p div 64)) (8 * nat (psize p div 64)) = Some (aloc p @ replicate ?n 0)"
    using m1 by (simp add: d64)
  have r2: "memset0 (realloc (ref p) (psize p * 2 div 64) junkw)
              (nat (psize p div 64)) (nat (8 * psize p div 64)) = Some (ref p @ replicate ?n 0)"
  proof -
    have "nat (8 * int ?n) = 8 * ?n" by (simp add: nat_mult_distrib)
    with m2 show ?thesis by (simp add: d64)
  qed
  have ix: "nat (psize p * 2 div 128) = ?n" by (simp add: d64)
  have inb: "?n < length (aloc p @ replicate ?n (0 :: 64 word))" using assms(2) by simp
  have upd: "(aloc p @ replicate ?n 0)[?n := (aloc p @ replicate ?n 0) ! ?n OR 1]
               = aloc p @ 1 # replicate (?n - 1) (0 :: 64 word)"
    using assms(2) by (cases ?n) (simp_all add: list_update_append nth_append)
  have ge: "\<not> (- 1 :: int) \<ge> 0" by simp
  have lt: "\<not> psize p \<ge> 0x3FFFFFFF" using assms(5) by simp
  have "bmp_reserve junk junkw p =
           Inr (psize p,
                \<lparr>tbl = realloc (tbl p) (psize p * 2) junk, psize = psize p * 2,
                 aloc = aloc p @ 1 # replicate (length (aloc p) - 1) 0,
                 ref = ref p @ replicate (length (aloc p)) 0\<rparr>)"
    unfolding bmp_reserve_def Let_def full
    by (simp only: sum.case prod.case ge lt if_False a2 r2 option.case ix inb not_True_eq_False
        upd d64(5))
  then show ?thesis by (simp add: mult.commute)
qed

lemma bmp_bit_grown:
  assumes "0 < n" and "length bmp = n" and "k < 128 * n"
  shows "bmp_bit (bmp @ 1 # replicate (n - 1) 0) k \<longleftrightarrow>
           (if k < 64 * n then bmp_bit bmp k else k = 64 * n)"
proof (cases "k < 64 * n")
  case True
  then have "k div 64 < n" by simp
  then show ?thesis using True assms by (simp add: bmp_bit_def nth_append)
next
  case False
  then have ge: "n \<le> k div 64" by simp
  show ?thesis
  proof (cases "k div 64 = n")
    case True
    then have "k = 64 * n \<longleftrightarrow> k mod 64 = 0"
      by (metis add.right_neutral mult_div_mod_eq add_left_cancel)
    then show ?thesis using True False assms
      by (auto simp: bmp_bit_def nth_append bit_1_iff)
  next
    case F2: False
    with ge have gt: "n < k div 64" by simp
    then have ne: "k \<noteq> 64 * n" by auto
    have "k div 64 - n - 1 < n - 1" using gt assms(3) by simp
    then have "(bmp @ 1 # replicate (n - 1) 0) ! (k div 64) = 0"
      using gt assms by (simp add: nth_append nth_Cons')
    then show ?thesis using False ne by (simp add: bmp_bit_def)
  qed
qed

text \<open>
  C7, as amended. For a pool whose capacity is 64 times the number of bitmap words:
  if some slot is free, \<open>bmp_reserve\<close> returns the lowest free slot and sets its bit,
  leaving the table, the capacity and every other bit as they were; if every slot is in
  use and the capacity is below \<open>0x3FFFFFFF\<close>, the capacity doubles, the returned
  index is the old capacity, its bit is set, the other new bits are clear, all old bits
  stay set and the old table entries are unchanged; if every slot is in use and the
  capacity is \<open>0x3FFFFFFF\<close> or more, the allocation ends in the out-of-memory exit.
\<close>

theorem bmp_reserve_spec:
  assumes "psize p = 64 * int (length (aloc p))" and "0 < length (aloc p)"
    and "length (ref p) = length (aloc p)" and "length (tbl p) = nat (psize p)"
  shows "(\<forall>i < nat (psize p). \<not> bmp_bit (aloc p) i \<and> (\<forall>k<i. bmp_bit (aloc p) k) \<longrightarrow>
            (\<exists>aloc'. bmp_reserve junk junkw p = Inr (int i, p\<lparr>aloc := aloc'\<rparr>) \<and>
               length aloc' = length (aloc p) \<and>
               (\<forall>k < nat (psize p). bmp_bit aloc' k \<longleftrightarrow> k = i \<or> bmp_bit (aloc p) k))) \<and>
         ((\<forall>i < nat (psize p). bmp_bit (aloc p) i) \<and> psize p < 0x3FFFFFFF \<longrightarrow>
            (\<exists>q. bmp_reserve junk junkw p = Inr (psize p, q) \<and>
               psize q = 2 * psize p \<and>
               length (tbl q) = nat (psize q) \<and>
               length (aloc q) = 2 * length (aloc p) \<and>
               length (ref q) = 2 * length (ref p) \<and>
               (\<forall>k < nat (psize p). tbl q ! k = tbl p ! k) \<and>
               (\<forall>k < nat (psize q). bmp_bit (aloc q) k \<longleftrightarrow> k \<le> nat (psize p)))) \<and>
         ((\<forall>i < nat (psize p). bmp_bit (aloc p) i) \<and> psize p \<ge> 0x3FFFFFFF \<longrightarrow>
            bmp_reserve junk junkw p = Inl Out_of_memory)"
proof (intro conjI allI impI)
  fix i assume "i < nat (psize p)" "\<not> bmp_bit (aloc p) i \<and> (\<forall>k<i. bmp_bit (aloc p) k)"
  then show "\<exists>aloc'. bmp_reserve junk junkw p = Inr (int i, p\<lparr>aloc := aloc'\<rparr>) \<and>
               length aloc' = length (aloc p) \<and>
               (\<forall>k < nat (psize p). bmp_bit aloc' k \<longleftrightarrow> k = i \<or> bmp_bit (aloc p) k)"
    using bmp_reserve_found [OF assms(1), of i junk junkw] by blast
next
  assume h: "(\<forall>i < nat (psize p). bmp_bit (aloc p) i) \<and> psize p < 0x3FFFFFFF"
  let ?n = "length (aloc p)"
  let ?q = "\<lparr>tbl = realloc (tbl p) (2 * psize p) junk, psize = 2 * psize p,
                 aloc = aloc p @ 1 # replicate (?n - 1) 0,
                 ref = ref p @ replicate ?n 0\<rparr>"
  have run: "bmp_reserve junk junkw p = Inr (psize p, ?q)"
    using bmp_reserve_grow [OF assms(1-3)] h by blast
  have t: "realloc (tbl p) (2 * psize p) junk = tbl p @ replicate (nat (psize p)) junk"
    using assms(1,4) by (simp add: realloc_def)
  have tl: "length (realloc (tbl p) (2 * psize p) junk) = nat (2 * psize p)"
    unfolding t using assms(1,4) by simp
  have tk: "\<forall>k < nat (psize p). realloc (tbl p) (2 * psize p) junk ! k = tbl p ! k"
    unfolding t using assms(4) by (simp add: nth_append)
  have bits: "\<forall>k < nat (2 * psize p). bmp_bit (aloc p @ 1 # replicate (?n - 1) 0) k \<longleftrightarrow> k \<le> nat (psize p)"
  proof (intro allI impI)
    fix k assume k: "k < nat (2 * psize p)"
    then have k2: "k < 128 * ?n" using assms(1) by simp
    have ps: "nat (psize p) = 64 * ?n" using assms(1) by simp
    show "bmp_bit (aloc p @ 1 # replicate (?n - 1) 0) k \<longleftrightarrow> k \<le> nat (psize p)"
      using bmp_bit_grown [OF assms(2) refl k2] h ps by auto
  qed
  show "\<exists>q. bmp_reserve junk junkw p = Inr (psize p, q) \<and>
               psize q = 2 * psize p \<and>
               length (tbl q) = nat (psize q) \<and>
               length (aloc q) = 2 * length (aloc p) \<and>
               length (ref q) = 2 * length (ref p) \<and>
               (\<forall>k < nat (psize p). tbl q ! k = tbl p ! k) \<and>
               (\<forall>k < nat (psize q). bmp_bit (aloc q) k \<longleftrightarrow> k \<le> nat (psize p))"
    unfolding run using assms(2,3) bits tl tk by simp
next
  assume h: "(\<forall>i < nat (psize p). bmp_bit (aloc p) i) \<and> psize p \<ge> 0x3FFFFFFF"
  have "bmp_alloc (aloc p) 0 (psize p) = Inr (- 1, aloc p)"
    using bmp_reserve_alloc_full [OF assms(1)] h by blast
  then show "bmp_reserve junk junkw p = Inl Out_of_memory"
    using h by (simp add: bmp_reserve_def)
qed

theorem bmp_reserve_spec_witness:
  "(\<exists>q. bmp_reserve (0::nat) 0 \<lparr>tbl = replicate 64 0, psize = 64, aloc = [- 1], ref = [0]\<rparr> = Inr (64, q) \<and>
      psize q = 128 \<and> length (tbl q) = 128 \<and> length (aloc q) = 2) \<and>
   (\<exists>a. bmp_reserve (0::nat) 0 \<lparr>tbl = replicate 64 0, psize = 64, aloc = [5], ref = [0]\<rparr> =
      Inr (1, \<lparr>tbl = replicate 64 0, psize = 64, aloc = a, ref = [0]\<rparr>) \<and> bmp_bit a 1)"
proof -
  let ?p = "\<lparr>tbl = replicate 64 (0::nat), psize = 64, aloc = [- 1], ref = [0]\<rparr>"
  let ?r = "\<lparr>tbl = replicate 64 (0::nat), psize = 64, aloc = [5], ref = [0]\<rparr>"
  have p1: "psize ?p = 64 * int (length (aloc ?p))" and p2: "0 < length (aloc ?p)"
    and p3: "length (ref ?p) = length (aloc ?p)" and p4: "length (tbl ?p) = nat (psize ?p)"
    by simp_all
  have r1: "psize ?r = 64 * int (length (aloc ?r))" and r2: "0 < length (aloc ?r)"
    and r3: "length (ref ?r) = length (aloc ?r)" and r4: "length (tbl ?r) = nat (psize ?r)"
    by simp_all
  have full: "(\<forall>i < nat (psize ?p). bmp_bit (aloc ?p) i) \<and> psize ?p < 0x3FFFFFFF"
    by (simp add: bmp_bit_def)
  from bmp_reserve_spec [OF p1 p2 p3 p4, of 0 0, THEN conjunct2, THEN conjunct1, rule_format, OF full]
  obtain q where q: "bmp_reserve 0 0 ?p = Inr (psize ?p, q)" "psize q = 2 * psize ?p"
    "length (tbl q) = nat (psize q)" "length (aloc q) = 2 * length (aloc ?p)"
    by blast
  then have A: "\<exists>q. bmp_reserve (0::nat) 0 ?p = Inr (64, q) \<and>
      psize q = 128 \<and> length (tbl q) = 128 \<and> length (aloc q) = 2"
    by auto
  have i1: "1 < nat (psize ?r)" by simp
  have free: "\<not> bmp_bit (aloc ?r) 1 \<and> (\<forall>k<1. bmp_bit (aloc ?r) k)"
    by (simp add: bmp_bit_def)
  from bmp_reserve_spec [OF r1 r2 r3 r4, of 0 0, THEN conjunct1, rule_format, OF i1 free]
  obtain a where a: "bmp_reserve 0 0 ?r = Inr (int 1, ?r\<lparr>aloc := a\<rparr>)"
    "\<forall>k < nat (psize ?r). bmp_bit a k \<longleftrightarrow> k = 1 \<or> bmp_bit (aloc ?r) k"
    by blast
  from a(2) have "bmp_bit a 1" by simp
  with a(1) have B: "\<exists>a. bmp_reserve (0::nat) 0 ?r =
      Inr (1, \<lparr>tbl = replicate 64 0, psize = 64, aloc = a, ref = [0]\<rparr>) \<and> bmp_bit a 1"
    by auto
  from A B show ?thesis by blast
qed

lemma bmp_reserve_exhausted:
  assumes "s = 64 * int n" and "s \<ge> 0x3FFFFFFF"
  shows "bmp_reserve junk junkw \<lparr>tbl = t, psize = s, aloc = replicate n (- 1), ref = r\<rparr> = Inl Out_of_memory"
proof -
  have "bmp_alloc (replicate n (- 1)) 0 s = Inr (- 1, replicate n (- 1))"
    using assms(1) by (intro bmp_alloc_full) auto
  then show ?thesis using assms(2) by (simp add: bmp_reserve_def)
qed

theorem bmp_reserve_full_pool_counterexample:
  "bmp_reserve (0::nat) 0
     \<lparr>tbl = replicate 1073741824 0, psize = 1073741824,
      aloc = replicate 16777216 (- 1), ref = replicate 16777216 0\<rparr> = Inl Out_of_memory"
  by (rule bmp_reserve_exhausted) simp_all

section \<open>Store by index\<close>

lemma pushnils_loop_eq:
  "pushnils_loop vs t = vs @ replicate (nat (t - int (length vs))) SINK_NIL"
proof (induction vs t rule: pushnils_loop.induct)
  case (1 vs totalsize)
  show ?case
  proof (cases "int (length vs) < totalsize")
    case True
    then have n: "nat (totalsize - int (length vs)) = Suc (nat (totalsize - int (length (vs @ [SINK_NIL]))))"
      by simp
    have "pushnils_loop vs totalsize = pushnils_loop (vs @ [SINK_NIL]) totalsize"
      using True by (subst pushnils_loop.simps) simp
    also have "\<dots> = (vs @ [SINK_NIL]) @ replicate (nat (totalsize - int (length (vs @ [SINK_NIL])))) SINK_NIL"
      using 1 True by simp
    also have "\<dots> = vs @ replicate (nat (totalsize - int (length vs))) SINK_NIL"
      unfolding n by simp
    finally show ?thesis .
  next
    case False
    then show ?thesis by (subst pushnils_loop.simps) simp
  qed
qed

lemma int32_id: "- 2147483648 \<le> v \<Longrightarrow> v \<le> 2147483647 \<Longrightarrow> int32 v = v"
  by (simp add: int32_def)

lemma pushnils_noop:
  "t \<le> int (length (vals ls)) \<Longrightarrow> opi_list_pushnils ls t = Inr ls"
  by (simp add: opi_list_pushnils_def)

lemma realloc_fits:
  assumes "0 \<le> c" and "c \<le> 2147483647"
  shows "\<not> realloc_null (size_t (8 * c))"
  using assms by (simp add: realloc_null_def size_t_def PTRDIFF_MAX_def)

lemma pushnils_extends:
  assumes "int (length (vals ls)) < t" and "t \<le> count ls \<or> t \<le> 2147483447"
  shows "\<exists>ls'. opi_list_pushnils ls t = Inr ls' \<and>
           vals ls' = vals ls @ replicate (nat (t - int (length (vals ls)))) SINK_NIL"
proof (cases "t > count ls")
  case True
  with assms have t: "0 < t" "t \<le> 2147483447" by auto
  then have c: "int32 (t + sink_list_grow) = t + 200"
    by (simp add: int32_id sink_list_grow_def)
  have "\<not> realloc_null (size_t (8 * (t + 200)))"
    using t by (intro realloc_fits) auto
  then show ?thesis
    using assms(1) True by (simp add: opi_list_pushnils_def c pushnils_loop_eq)
next
  case False
  then show ?thesis
    using assms(1) by (simp add: opi_list_pushnils_def pushnils_loop_eq)
qed

lemma op_setat_defined:
  assumes "sink_islist X" and "sink_isnum Y" and "double_to_int Y = Some i"
    and "var_index X < length (list_tbl ctx)"
    and "a = (if i < 0 then i + int (length (vals (list_tbl ctx ! var_index X))) else i)"
  shows "op_setat ctx X Y V =
           (case opi_list_pushnils (list_tbl ctx ! var_index X) (int32 (a + 1)) of
              Inl f \<Rightarrow> Inl f
            | Inr ls3 \<Rightarrow>
                Inr (ctx\<lparr>list_tbl := (list_tbl ctx)[var_index X :=
                  (if a \<ge> 0 \<and> a < int (length (vals ls3))
                   then ls3\<lparr>vals := (vals ls3)[nat a := V]\<rparr> else ls3)]\<rparr>))"
  using assms by (simp add: op_setat_def Let_def split: sum.splits)

text \<open>
  C8, as amended. A set-at store at index \<open>i\<close> (a negative \<open>i\<close> first has the length
  added), whose adjusted index \<open>a\<close> is not negative and either at most 2147483446, so that
  the new capacity \<open>a + 1 + 200\<close> fits an \<open>int\<close>, or at most 2147483646 and below the
  capacity the list already has: the list then has length \<open>a + 1\<close> if \<open>a\<close> was at or
  beyond the old length \<open>n\<close> (and keeps its length otherwise), holds the stored value at
  \<open>a\<close>, keeps every old element at every other index below \<open>n\<close>, and holds nil at the new
  indices between \<open>n\<close> and \<open>a\<close>. No other list changes.
\<close>

theorem setat_extends_with_nils:
  assumes "sink_islist X" and "sink_isnum Y" and "double_to_int Y = Some i"
    and "var_index X < length (list_tbl ctx)"
    and "old = vals (list_tbl ctx ! var_index X)"
    and "a = (if i < 0 then i + int (length old) else i)"
    and "0 \<le> a"
    and "a \<le> 2147483446 \<or> (a \<le> 2147483646 \<and> a < count (list_tbl ctx ! var_index X))"
  shows "\<exists>ctx'. op_setat ctx X Y V = Inr ctx' \<and>
           length (list_tbl ctx') = length (list_tbl ctx) \<and>
           (\<forall>k < length (list_tbl ctx). k \<noteq> var_index X \<longrightarrow> list_tbl ctx' ! k = list_tbl ctx ! k) \<and>
           (let new = vals (list_tbl ctx' ! var_index X) in
              length new = (if int (length old) \<le> a then nat a + 1 else length old) \<and>
              new ! nat a = V \<and>
              (\<forall>j < length new. j \<noteq> nat a \<longrightarrow>
                 new ! j = (if j < length old then old ! j else SINK_NIL)))"
proof -
  let ?ls = "list_tbl ctx ! var_index X"
  have a1: "int32 (a + 1) = a + 1"
    using assms(7,8) by (intro int32_id) auto
  have "\<exists>ls3. opi_list_pushnils ?ls (a + 1) = Inr ls3 \<and>
          vals ls3 = old @ replicate (nat (a + 1 - int (length old))) SINK_NIL"
  proof (cases "int (length old) < a + 1")
    case True
    have "a + 1 \<le> count ?ls \<or> a + 1 \<le> 2147483447"
      using assms(8) by auto
    from pushnils_extends [OF _ this] True assms(5) show ?thesis by simp
  next
    case False
    then show ?thesis using assms(5) by (simp add: pushnils_noop)
  qed
  then obtain ls3 where p: "opi_list_pushnils ?ls (a + 1) = Inr ls3"
    and v3: "vals ls3 = old @ replicate (nat (a + 1 - int (length old))) SINK_NIL"
    by blast
  let ?ls4 = "ls3\<lparr>vals := (vals ls3)[nat a := V]\<rparr>"
  have len3: "length (vals ls3) = (if int (length old) \<le> a then nat a + 1 else length old)"
    using assms(7) by (auto simp: v3)
  have inb: "a < int (length (vals ls3))"
    using assms(7) by (auto simp: len3)
  have a_eq: "a = (if i < 0 then i + int (length (vals ?ls)) else i)"
    using assms(5,6) by simp
  have run: "op_setat ctx X Y V = Inr (ctx\<lparr>list_tbl := (list_tbl ctx)[var_index X := ?ls4]\<rparr>)"
    unfolding op_setat_defined [OF assms(1-4) a_eq] a1 p using inb assms(7) by simp
  have oth: "\<forall>j < length (vals ls3). j \<noteq> nat a \<longrightarrow>
               (vals ls3)[nat a := V] ! j = (if j < length old then old ! j else SINK_NIL)"
    by (auto simp: v3 nth_append)
  show ?thesis
    unfolding run using assms(4,7) len3 inb oth by (simp add: Let_def)
qed

theorem setat_extends_with_nils_witness:
  "\<exists>ctx'. op_setat \<lparr>str_tbl = [], list_tbl = [\<lparr>vals = [SINK_NIL], count = 200\<rparr>], pc = 0, timeout = 0,
        timeout_left = 0, gc_level = SINK_GC_DEFAULT, gc_left = 0, passed = False, failed = False,
        async = False, err = None\<rparr> 0x7FF0000300000000 0x4008000000000000 0x3FF0000000000000 = Inr ctx' \<and>
     vals (list_tbl ctx' ! 0) = [SINK_NIL, SINK_NIL, SINK_NIL, 0x3FF0000000000000]"
proof -
  let ?ctx = "\<lparr>str_tbl = [], list_tbl = [\<lparr>vals = [SINK_NIL], count = 200\<rparr>], pc = 0, timeout = 0,
        timeout_left = 0, gc_level = SINK_GC_DEFAULT, gc_left = 0, passed = False, failed = False,
        async = False, err = None\<rparr>"
  have 1: "sink_islist 0x7FF0000300000000"
    by (simp add: sink_islist_def SINK_TAG_MASK_def SINK_TAG_LIST_def)
  have 2: "sink_isnum 0x4008000000000000"
    by (simp add: sink_isnum_def sink_isnil_def sink_isstr_def sink_islist_def SINK_NIL_def
        SINK_TAG_MASK_def SINK_TAG_LIST_def SINK_TAG_STR_def)
  have 3: "double_to_int 0x4008000000000000 = Some 3"
    by (simp add: double_to_int_def dbl_exp_def dbl_man_def dbl_sign_def Let_def)
  have 4: "var_index 0x7FF0000300000000 < length (list_tbl ?ctx)"
    by (simp add: var_index_def SINK_INDEX_MASK_def)
  have 5: "[SINK_NIL] = vals (list_tbl ?ctx ! var_index 0x7FF0000300000000)"
    by (simp add: var_index_def SINK_INDEX_MASK_def)
  have 6: "(3::int) = (if (3::int) < 0 then 3 + int (length [SINK_NIL]) else 3)" by simp
  have 7: "(0::int) \<le> 3" by simp
  have 8: "(3::int) \<le> 2147483446 \<or>
      ((3::int) \<le> 2147483646 \<and> 3 < count (list_tbl ?ctx ! var_index 0x7FF0000300000000))"
    by simp
  from setat_extends_with_nils [OF 1 2 3 4 5 6 7 8, of "0x3FF0000000000000"]
  obtain ctx' where r: "op_setat ?ctx 0x7FF0000300000000 0x4008000000000000 0x3FF0000000000000 = Inr ctx'"
    and l: "length (vals (list_tbl ctx' ! 0)) = 4" and v: "vals (list_tbl ctx' ! 0) ! 3 = 0x3FF0000000000000"
    and o: "\<forall>j < length (vals (list_tbl ctx' ! 0)). j \<noteq> 3 \<longrightarrow> vals (list_tbl ctx' ! 0) ! j = (if j < 1 then [SINK_NIL] ! j else SINK_NIL)"
    by (auto simp: Let_def var_index_def SINK_INDEX_MASK_def)
  have "vals (list_tbl ctx' ! 0) = [SINK_NIL, SINK_NIL, SINK_NIL, 0x3FF0000000000000]"
    using l v o by (auto simp: list_eq_iff_nth_eq less_Suc_eq numeral_eq_Suc)
  with r show ?thesis by blast
qed

text \<open>
  Without the bound the statement fails. On the list of the one element nil, with capacity
  200: the store at index 2147483647 (the double \<open>0x41DFFFFFFFC00000\<close>) changes nothing,
  since \<open>A + 1\<close> is \<open>INT_MIN\<close>, no element is added and the guard \<open>A < size\<close> skips the
  store; the store at index 2147483447 (the double \<open>0x41DFFFFFCDC00000\<close>) ends the
  process, since the new capacity \<open>2147483448 + 200\<close> is negative as an \<open>int\<close> and the
  byte count handed to \<open>realloc\<close> is above \<open>PTRDIFF_MAX\<close>.
\<close>

theorem setat_index_int_max_counterexample:
  "op_setat \<lparr>str_tbl = [], list_tbl = [\<lparr>vals = [SINK_NIL], count = 200\<rparr>], pc = 0, timeout = 0,
        timeout_left = 0, gc_level = SINK_GC_DEFAULT, gc_left = 0, passed = False, failed = False,
        async = False, err = None\<rparr> 0x7FF0000300000000 0x41DFFFFFFFC00000 0x3FF0000000000000 =
     Inr \<lparr>str_tbl = [], list_tbl = [\<lparr>vals = [SINK_NIL], count = 200\<rparr>], pc = 0, timeout = 0,
        timeout_left = 0, gc_level = SINK_GC_DEFAULT, gc_left = 0, passed = False, failed = False,
        async = False, err = None\<rparr> \<and>
   op_setat \<lparr>str_tbl = [], list_tbl = [\<lparr>vals = [SINK_NIL], count = 200\<rparr>], pc = 0, timeout = 0,
        timeout_left = 0, gc_level = SINK_GC_DEFAULT, gc_left = 0, passed = False, failed = False,
        async = False, err = None\<rparr> 0x7FF0000300000000 0x41DFFFFFCDC00000 0x3FF0000000000000 =
     Inl Out_of_memory"
proof -
  have X: "sink_islist 0x7FF0000300000000" "var_index 0x7FF0000300000000 = 0"
    by (simp_all add: sink_islist_def SINK_TAG_MASK_def SINK_TAG_LIST_def var_index_def
        SINK_INDEX_MASK_def)
  have Y: "sink_isnum 0x41DFFFFFFFC00000" "sink_isnum 0x41DFFFFFCDC00000"
    by (simp_all add: sink_isnum_def sink_isnil_def sink_isstr_def sink_islist_def SINK_NIL_def
        SINK_TAG_MASK_def SINK_TAG_LIST_def SINK_TAG_STR_def)
  have i: "double_to_int 0x41DFFFFFFFC00000 = Some 2147483647"
    "double_to_int 0x41DFFFFFCDC00000 = Some 2147483447"
    by (simp_all add: double_to_int_def dbl_exp_def dbl_man_def dbl_sign_def Let_def)
  have w: "int32 2147483648 = - 2147483648" "int32 2147483448 = 2147483448"
    by (simp_all add: int32_def)
  have m: "realloc_null (size_t (- 17179869184))"
    by (simp add: realloc_null_def size_t_def PTRDIFF_MAX_def)
  show ?thesis
    by (simp add: op_setat_def X Y i w m opi_list_pushnils_def sink_list_grow_def Let_def)
qed

text \<open>
  C10. A set-at store at a negative index that is still negative after the length has been
  added raises no error and leaves the whole context (so the length and every element of
  the list) as it was.
\<close>

theorem setat_negative_out_of_range_noop:
  assumes "sink_islist X" and "sink_isnum Y" and "double_to_int Y = Some i"
    and "var_index X < length (list_tbl ctx)"
    and "i < 0" and "i + int (length (vals (list_tbl ctx ! var_index X))) < 0"
  shows "op_setat ctx X Y V = Inr ctx"
proof -
  let ?ls = "list_tbl ctx ! var_index X"
  let ?a = "i + int (length (vals ?ls))"
  have a_eq: "?a = (if i < 0 then i + int (length (vals ?ls)) else i)"
    using assms(5) by simp
  have lo: "- 2147483648 \<le> i"
    using assms(3) by (auto simp: double_to_int_def Let_def split: if_splits)
  have a1: "int32 (?a + 1) = ?a + 1"
    using assms(6) lo by (intro int32_id) auto
  have keep: "opi_list_pushnils ?ls (?a + 1) = Inr ?ls"
    using assms(6) by (intro pushnils_noop) simp
  have "op_setat ctx X Y V = Inr (ctx\<lparr>list_tbl := (list_tbl ctx)[var_index X := ?ls]\<rparr>)"
    unfolding op_setat_defined [OF assms(1-4) a_eq] a1 keep using assms(6) by simp
  then show ?thesis by simp
qed

theorem setat_negative_out_of_range_noop_witness:
  "op_setat \<lparr>str_tbl = [], list_tbl = [\<lparr>vals = [SINK_NIL], count = 200\<rparr>], pc = 0, timeout = 0,
        timeout_left = 0, gc_level = SINK_GC_DEFAULT, gc_left = 0, passed = False, failed = False,
        async = False, err = None\<rparr> 0x7FF0000300000000 0xC008000000000000 0x3FF0000000000000 =
     Inr \<lparr>str_tbl = [], list_tbl = [\<lparr>vals = [SINK_NIL], count = 200\<rparr>], pc = 0, timeout = 0,
        timeout_left = 0, gc_level = SINK_GC_DEFAULT, gc_left = 0, passed = False, failed = False,
        async = False, err = None\<rparr>"
proof -
  let ?ctx = "\<lparr>str_tbl = [], list_tbl = [\<lparr>vals = [SINK_NIL], count = 200\<rparr>], pc = 0, timeout = 0,
        timeout_left = 0, gc_level = SINK_GC_DEFAULT, gc_left = 0, passed = False, failed = False,
        async = False, err = None\<rparr>"
  have 1: "sink_islist 0x7FF0000300000000"
    by (simp add: sink_islist_def SINK_TAG_MASK_def SINK_TAG_LIST_def)
  have 2: "sink_isnum 0xC008000000000000"
    by (simp add: sink_isnum_def sink_isnil_def sink_isstr_def sink_islist_def SINK_NIL_def
        SINK_TAG_MASK_def SINK_TAG_LIST_def SINK_TAG_STR_def)
  have 3: "double_to_int 0xC008000000000000 = Some (- 3)"
    by (simp add: double_to_int_def dbl_exp_def dbl_man_def dbl_sign_def Let_def)
  have 4: "var_index 0x7FF0000300000000 < length (list_tbl ?ctx)"
    by (simp add: var_index_def SINK_INDEX_MASK_def)
  have 5: "(- 3::int) < 0" by simp
  have 6: "- 3 + int (length (vals (list_tbl ?ctx ! var_index 0x7FF0000300000000))) < 0"
    by (simp add: var_index_def SINK_INDEX_MASK_def)
  show ?thesis
    by (rule setat_negative_out_of_range_noop [OF 1 2 3 4 5 6])
qed

section \<open>JSON text of numbers that are not finite\<close>

lemma pk_isjson_inf: "\<not> pk_isjson (''inf'' @ t)"
  by (simp add: pk_isjson_def isNum_def isSpace_def)

lemma pk_isjson_nan: "\<not> pk_isjson (''nan'' @ t)"
  by (simp add: pk_isjson_def)

lemma pk_isjson_neg_inf: "\<not> pk_isjson (''-inf'' @ t)"
  by (simp add: pk_isjson_def isNum_def)

lemma pk_isjson_neg_nan: "\<not> pk_isjson (''-nan'' @ t)"
  by (simp add: pk_isjson_def isNum_def)

text \<open>
  C9. Let \<open>fmt\<close> render a NaN or an infinity the way C99 prescribes for \<open>%g\<close>: as
  \<open>inf\<close>, \<open>infinity\<close>, \<open>nan\<close> or \<open>nan(...)\<close>, with a leading minus sign or without.
  Then pickling a number value that is a NaN or an infinity to JSON returns the string
  \<open>null\<close> and leaves the context as it was (so it is not failed).
\<close>

theorem pickle_json_nonfinite_is_null:
  assumes "sink_typeof v = SINK_TYPE_NUM" and "dbl_isnan v \<or> dbl_isinf v"
    and "\<forall>u. dbl_isnan u \<or> dbl_isinf u \<longrightarrow>
           (\<exists>t. fmt u = ''inf'' @ t \<or> fmt u = ''nan'' @ t \<or> fmt u = ''-inf'' @ t \<or> fmt u = ''-nan'' @ t)"
  shows "opi_pickle_json fmt trace ctx v = Inr (ctx, Some ''null'')"
proof -
  from assms(2,3) obtain t where
    t: "fmt v = ''inf'' @ t \<or> fmt v = ''nan'' @ t \<or> fmt v = ''-inf'' @ t \<or> fmt v = ''-nan'' @ t"
    by blast
  then have "fmt v \<noteq> ''-0''" by auto
  then have n: "numtostr fmt v = fmt v" by (simp add: numtostr_def)
  have "\<not> pk_isjson (fmt v)"
    using t pk_isjson_inf [of t] pk_isjson_nan [of t] pk_isjson_neg_inf [of t] pk_isjson_neg_nan [of t]
    by auto
  then have "pk_tojson fmt ctx v [] = Inr (Some ''null'')"
    by (simp add: pk_tojson_num [OF assms(1)] n)
  then show ?thesis by (simp add: opi_pickle_json_def)
qed

text \<open>The canonical NaN under a \<open>fmt\<close> that prints \<open>nan\<close>, \<open>inf\<close> and \<open>-inf\<close>.\<close>

theorem pickle_json_nonfinite_is_null_witness:
  "opi_pickle_json
     (\<lambda>u. if dbl_isnan u then ''nan'' else if dbl_isinf u then (if dbl_sign u then ''-inf'' else ''inf'') else ''0'')
     (\<lambda>m. m)
     \<lparr>str_tbl = [], list_tbl = [], pc = 0, timeout = 0, timeout_left = 0,
      gc_level = SINK_GC_DEFAULT, gc_left = 0, passed = False, failed = False, async = False,
      err = None\<rparr> 0x7FF8000000000000 =
   Inr (\<lparr>str_tbl = [], list_tbl = [], pc = 0, timeout = 0, timeout_left = 0,
      gc_level = SINK_GC_DEFAULT, gc_left = 0, passed = False, failed = False, async = False,
      err = None\<rparr>, Some ''null'')"
proof -
  have 1: "sink_typeof (0x7FF8000000000000 :: 64 word) = SINK_TYPE_NUM"
    by (simp add: sink_typeof_def sink_isnil_def sink_isstr_def sink_islist_def SINK_NIL_def
        SINK_TAG_MASK_def SINK_TAG_LIST_def SINK_TAG_STR_def)
  have 2: "dbl_isnan (0x7FF8000000000000 :: 64 word) \<or> dbl_isinf (0x7FF8000000000000 :: 64 word)"
    by (simp add: dbl_isnan_def dbl_exp_def dbl_man_def)
  show ?thesis
    by (rule pickle_json_nonfinite_is_null [OF 1 2]) auto
qed

end
